theory Spec2Isabelle
  imports Main "HOL-Library.Word" "HOL-Library.Finite_Map"
begin

section \<open>Values shared by both bot sources\<close>

text \<open>
  A JavaScript string is a sequence of UTF-16 code units: \<open>s.length\<close> is the length of
  that sequence, \<open>s.substring(0, n)\<close> is \<open>take n\<close> and \<open>s.substring(n)\<close> is
  \<open>drop n\<close>. Discord ids (snowflakes) are strings used as keys only.
\<close>

type_synonym jsstring = "16 word list"
type_synonym msgid = string

definition ascii :: "string \<Rightarrow> jsstring" where
  "ascii s = map (\<lambda>c. of_nat (of_char c)) s"

section \<open>main\_0603.js: the message store and its hourly cleaning\<close>

text \<open>
  \<open>allMessages[message.id] = {id, referenceMessageId, time, authorName, text}\<close>
  (lines 140--146). \<open>referenceMessageId\<close> is \<open>message.reference?.messageId ?? null\<close>:
  \<open>None\<close> is \<open>null\<close>. \<open>time\<close> is \<open>createdTimestamp\<close>, milliseconds as an integer.
\<close>

record stored_message =
  msg_id :: msgid
  referenceMessageId :: "msgid option"
  time :: int
  authorName :: jsstring
  msg_text :: jsstring

text \<open>
  \<open>allMessages\<close> is a plain object used as a dictionary (a finite map);
  \<open>thisBotMessages\<close> is a \<open>Set\<close>, kept as the list of its members in insertion
  order, which is the order \<open>[...thisBotMessages]\<close> yields.
\<close>

record store =
  allMessages :: "(msgid, stored_message) fmap"
  thisBotMessages :: "msgid list"

definition usefulMessagesLifetime :: int where
  "usefulMessagesLifetime = 7 * 24 * 3600 * 1000"

definition unusefulMessagesLifetime :: int where
  "unusefulMessagesLifetime = 24 * 3600 * 1000"

text \<open>
  The inner \<open>while (true)\<close> of \<open>infiniteCleanMessages\<close> (lines 403--423), started at
  \<open>lastChainId\<close>. It carries \<open>usefulMessages\<close> and \<open>thisBotMessages\<close>;
  \<open>Set.delete\<close> of an absent member does nothing.
\<close>

function useful_walk ::
  "(msgid, stored_message) fmap \<Rightarrow> msgid set \<times> msgid list \<Rightarrow> msgid \<Rightarrow> msgid set \<times> msgid list"
where
  "useful_walk am (useful, bots) lastChainId =
     (if lastChainId \<in> useful then (useful, bots)
      else case fmlookup am lastChainId of
             None \<Rightarrow> (useful, removeAll lastChainId bots)
           | Some message \<Rightarrow>
               (case referenceMessageId message of
                  None \<Rightarrow> (insert lastChainId useful, bots)
                | Some r \<Rightarrow> useful_walk am (insert lastChainId useful, bots) r))"
  by pat_completeness auto
termination
proof (relation "measure (\<lambda>(am, (useful, bots), cur). card (fmdom' am - useful))", goal_cases)
  case 1
  show ?case by simp
next
  case (2 am useful bots lastChainId message r)
  have mem: "lastChainId \<in> fmdom' am" using 2(2) by (rule fmdom'I)
  have "fmdom' am - insert lastChainId useful \<subset> fmdom' am - useful"
    using 2(1) mem by blast
  moreover have "finite (fmdom' am - useful)" by simp
  ultimately have "card (fmdom' am - insert lastChainId useful) < card (fmdom' am - useful)"
    by (rule psubset_card_mono[rotated])
  then show ?case by simp
qed

text \<open>
  \<open>for (const messageId of [...thisBotMessages].reverse())\<close> (line 402): the walks run
  over a copy of the set, newest member first, threading both sets.
\<close>

definition useful_walks ::
  "(msgid, stored_message) fmap \<Rightarrow> msgid list \<Rightarrow> msgid set \<times> msgid list" where
  "useful_walks am bots = foldl (useful_walk am) ({}, bots) (rev bots)"

definition lifetime_for :: "msgid set \<Rightarrow> msgid \<Rightarrow> int" where
  "lifetime_for usefulMessages messageId =
     (if messageId \<in> usefulMessages then usefulMessagesLifetime else unusefulMessagesLifetime)"

text \<open>
  Lines 427--436: the ids pushed to \<open>forDeletion\<close>. Only membership matters for the
  deletions of lines 438--440, so the array is kept as a finite set.
\<close>

definition forDeletion ::
  "(msgid, stored_message) fmap \<Rightarrow> msgid set \<Rightarrow> int \<Rightarrow> msgid fset" where
  "forDeletion am usefulMessages now =
     ffilter (\<lambda>messageId. case fmlookup am messageId of
                None \<Rightarrow> False
              | Some message \<Rightarrow> time message + lifetime_for usefulMessages messageId < now)
       (fmdom am)"

text \<open>
  One pass of the \<open>while (true)\<close> body of \<open>infiniteCleanMessages\<close> after its hourly
  sleep (lines 396--442), with \<open>now\<close> the value \<open>Date.now()\<close> returns on line 426.
  An empty \<open>allMessages\<close> takes the \<open>continue\<close> of line 398.
\<close>

definition cleanMessages_pass :: "int \<Rightarrow> store \<Rightarrow> store" where
  "cleanMessages_pass now st =
     (if allMessages st = fmempty then st
      else (case useful_walks (allMessages st) (thisBotMessages st) of
              (usefulMessages, bots) \<Rightarrow>
                \<lparr> allMessages = fmdrop_fset (forDeletion (allMessages st) usefulMessages now)
                                  (allMessages st),
                  thisBotMessages = bots \<rparr>))"

text \<open>
  The useful set in the words of the specification: every cached id that a backward walk
  along \<open>referenceMessageId\<close> from a member of \<open>thisBotMessages\<close> visits. The walk
  ends at an id with no cached record, so only cached ids are marked. This is the
  reference against which \<open>useful_walks\<close>, with its early stop at an id already
  marked, is compared.
\<close>

inductive_set useful_spec :: "(msgid, stored_message) fmap \<Rightarrow> msgid list \<Rightarrow> msgid set"
  for am :: "(msgid, stored_message) fmap" and bots :: "msgid list"
where
  own: "b \<in> set bots \<Longrightarrow> fmlookup am b = Some m \<Longrightarrow> b \<in> useful_spec am bots"
| parent: "x \<in> useful_spec am bots \<Longrightarrow> fmlookup am x = Some m \<Longrightarrow>
     referenceMessageId m = Some r \<Longrightarrow> fmlookup am r = Some m' \<Longrightarrow> r \<in> useful_spec am bots"

text \<open>A set of ids that already holds the cached parent of each of its cached members.\<close>

definition parent_closed :: "(msgid, stored_message) fmap \<Rightarrow> msgid set \<Rightarrow> bool" where
  "parent_closed am U \<longleftrightarrow>
     (\<forall>x m r m'. x \<in> U \<longrightarrow> fmlookup am x = Some m \<longrightarrow> referenceMessageId m = Some r \<longrightarrow>
        fmlookup am r = Some m' \<longrightarrow> r \<in> U)"

text \<open>
  A small store: message 2 is the bot's reply to message 1, message 3 is unrelated, and
  id 9 is an own id whose record is gone.
\<close>

definition example_record :: "msgid \<Rightarrow> msgid option \<Rightarrow> int \<Rightarrow> stored_message" where
  "example_record i r t =
     \<lparr> msg_id = i, referenceMessageId = r, time = t, authorName = ascii ''ann'',
       msg_text = ascii ''hello'' \<rparr>"

definition example_store :: store where
  "example_store =
     \<lparr> allMessages =
         fmupd ''1'' (example_record ''1'' None 0)
           (fmupd ''2'' (example_record ''2'' (Some ''1'') 1000)
             (fmupd ''3'' (example_record ''3'' None 1000) fmempty)),
       thisBotMessages = [''2'', ''9''] \<rparr>"

section \<open>\_main.js: what both halves of the file share\<close>

text \<open>
  \<open>_main.js\<close> holds two versions of the bot one after the other: lines 1--158 (rate
  limiter, retry of the loading message, chunked delivery; it calls a
  \<open>generateResponse\<close> it does not define) and lines 159--356 (edit-aware handler and the
  reply-chain walk). Their globals have the same names, so the state of the first carries
  the suffix \<open>_A\<close> and the state of the second \<open>_B\<close>.
\<close>

definition MAX_MESSAGE_LENGTH :: nat where
  "MAX_MESSAGE_LENGTH = 3000"

definition MAX_DISCORD_MESSAGE_LENGTH :: nat where
  "MAX_DISCORD_MESSAGE_LENGTH = 1950"

definition ERROR_MESSAGE :: jsstring where
  "ERROR_MESSAGE = [0x2757, 0x20] @ ascii ''OnionBot failed to translate. Please try again.''"

definition LENGTH_WARNING_MESSAGE :: jsstring where
  "LENGTH_WARNING_MESSAGE = [0x26A0, 0xFE0F, 0x20]
     @ ascii ''The message is too long. Please keep it under 3000 characters.''"

definition LOADING_FRAMES :: "jsstring list" where
  "LOADING_FRAMES = map (\<lambda>k. [0xD83E, 0xDDC5, 0x20] @ ascii ''Translating ''
                          @ replicate k 0x2593 @ replicate (10 - k) 0x2591) [0..<11]"

definition RATE_LIMIT_POINTS :: nat where
  "RATE_LIMIT_POINTS = 5"

text \<open>\<open>RATE_LIMIT_DURATION = 1\<close> is in seconds; clock readings are in milliseconds.\<close>

definition RATE_LIMIT_DURATION :: int where
  "RATE_LIMIT_DURATION = 1"

definition MAX_RETRY_ATTEMPTS :: nat where
  "MAX_RETRY_ATTEMPTS = 2"

definition RETRY_DELAY_MS :: nat where
  "RETRY_DELAY_MS = 5000"

text \<open>
  The fields of a discord.js \<open>Message\<close> that the handlers read. \<open>reference\<close> is
  \<open>message.reference?.messageId\<close> (\<open>None\<close> when undefined); \<open>retryCount\<close> is the
  property the retry path adds (\<open>None\<close> on a message from the gateway).
\<close>

record message =
  message_id :: msgid
  channelId :: string
  author_id :: string
  author_bot :: bool
  author_username :: jsstring
  content :: jsstring
  reference :: "msgid option"
  createdTimestamp :: int
  retryCount :: "nat option"

text \<open>One entry of the dialog sent to the language model.\<close>

datatype role = User | Assistant | System

record turn =
  turn_role :: role
  turn_content :: jsstring
  turn_name :: "jsstring option"

text \<open>
  Every awaited call to a collaborator is recorded, in order, with its arguments. A
  promise either resolves with a value or rejects.
\<close>

datatype call =
    Reply msgid jsstring
  | Edit msgid jsstring
  | Delete msgid
  | Generate msgid string
  | FetchChannel string
  | FetchMessage msgid
  | Completion "turn list"

datatype 'a outcome = Throws | Returns 'a

datatype completion = Resolved | Rejected

text \<open>
  The collaborators. What a write to the gateway answers (\<open>reply\<close>, \<open>edit\<close>) and what
  the first half's undefined \<open>generateResponse\<close> answers is given per position in the
  record of calls, so any behaviour of the collaborator can be supplied; reads of the
  gateway are given per id, and the language model per dialog. \<open>isTranslatableText\<close> is
  a parameter: the first half does not define it, and the second half's definition rests
  on the Unicode property tables of the regular-expression engine.
\<close>

record env =
  client_user_id :: string
  isTranslatableText :: "jsstring \<Rightarrow> bool"
  reply_result :: "nat \<Rightarrow> msgid outcome"
  edit_result :: "nat \<Rightarrow> bool"
  generate_result :: "nat \<Rightarrow> jsstring outcome"
  channels_fetch :: "string \<Rightarrow> bool"
  messages_fetch :: "msgid \<Rightarrow> message option"
  completion_result :: "turn list \<Rightarrow> jsstring option outcome"

text \<open>\<open>Set.prototype.add\<close> on a set kept as the list of its members in insertion order.\<close>

definition set_add :: "'a \<Rightarrow> 'a list \<Rightarrow> 'a list" where
  "set_add x xs = (if x \<in> set xs then xs else xs @ [x])"

subsection \<open>The caches\<close>

text \<open>
  Modelled from the spec: the \<open>lru-cache\<close> package is not part of the sources. Section 4.3 of
  the specification: the cache is bounded by a maximum entry count and an insertion beyond
  capacity evicts the least recently used entry. The entries are kept most recently used
  first; \<open>has\<close> does not touch the order, \<open>get\<close> and \<open>set\<close> move the entry to the
  front. The age limit of one hour needs a clock between any two calls and is left out:
  an entry that has expired behaves as an entry that is absent.
\<close>

type_synonym ('k, 'v) lru = "('k \<times> 'v) list"

text \<open>Modelled from the spec: \<open>has(id)\<close>, whether the cache holds an entry for the id.\<close>

definition lru_has :: "'k \<Rightarrow> ('k, 'v) lru \<Rightarrow> bool" where
  "lru_has k c = (map_of c k \<noteq> None)"

text \<open>
  Modelled from the spec: \<open>get(id)\<close>, the entry or nothing; an entry that is read
  becomes the most recently used.
\<close>

definition lru_get :: "'k \<Rightarrow> ('k, 'v) lru \<Rightarrow> 'v option \<times> ('k, 'v) lru" where
  "lru_get k c =
     (case map_of c k of
        None \<Rightarrow> (None, c)
      | Some v \<Rightarrow> (Some v, (k, v) # filter (\<lambda>p. fst p \<noteq> k) c))"

text \<open>
  Modelled from the spec: \<open>put(record)\<close>, the \<open>set\<close> of the package; the entry
  becomes the most recently used and what exceeds the capacity is evicted from the least
  recently used end.
\<close>

definition lru_set :: "nat \<Rightarrow> 'k \<Rightarrow> 'v \<Rightarrow> ('k, 'v) lru \<Rightarrow> ('k, 'v) lru" where
  "lru_set max_entries k v c = take max_entries ((k, v) # filter (\<lambda>p. fst p \<noteq> k) c)"

subsection \<open>The rate limiter\<close>

text \<open>
  Modelled from the spec: the \<open>rate-limiter-flexible\<close> package is not part of the
  sources.
  Sections 3 and 4.2 of the specification: per author a state \<open>pointsRemaining\<close>,
  \<open>windowStart\<close>; a fixed budget of points that is reset when the current window has
  elapsed; each accepted message consumes one point; with no point left the message is
  denied. \<open>now\<close> is the clock reading, in milliseconds, when \<open>consume\<close> is called.
\<close>

record bucket =
  pointsRemaining :: nat
  windowStart :: int

datatype verdict = Allowed | Denied

text \<open>
  Modelled from the spec: the author's state as \<open>consume\<close> finds it, a full budget
  in a window starting now when there is no state or its window has elapsed.
\<close>

definition current_bucket :: "(string \<Rightarrow> bucket option) \<Rightarrow> string \<Rightarrow> int \<Rightarrow> bucket" where
  "current_bucket rl key now =
     (case rl key of
        None \<Rightarrow> \<lparr> pointsRemaining = RATE_LIMIT_POINTS, windowStart = now \<rparr>
      | Some b \<Rightarrow>
          if now < windowStart b + RATE_LIMIT_DURATION * 1000 then b
          else \<lparr> pointsRemaining = RATE_LIMIT_POINTS, windowStart = now \<rparr>)"

text \<open>
  Modelled from the spec: \<open>consume(authorId)\<close> answers \<open>Allowed\<close> and takes one point,
  or \<open>Denied\<close> when no point is left in the window.
\<close>

definition consume ::
  "(string \<Rightarrow> bucket option) \<Rightarrow> string \<Rightarrow> int \<Rightarrow> verdict \<times> (string \<Rightarrow> bucket option)" where
  "consume rl key now =
     (let b = current_bucket rl key now in
      if 0 < pointsRemaining b
      then (Allowed, rl(key \<mapsto> b\<lparr> pointsRemaining := pointsRemaining b - 1 \<rparr>))
      else (Denied, rl(key \<mapsto> b)))"

section \<open>\_main.js, lines 1--158: the rate-limited handler\<close>

text \<open>
  The globals \<open>handleMessage\<close> reads and writes, the interval timers that are running
  (\<open>setInterval\<close> hands out a fresh handle), the retries waiting in \<open>setTimeout\<close>,
  each with the milliseconds it still has to wait, the queue of line 43 they are pushed
  to, and the record of calls made.
\<close>

record state_A =
  needShutdown_A :: bool
  thisBotMessages_A :: "msgid list"
  usernames_A :: "string \<Rightarrow> jsstring option"
  messageCache_A :: "(msgid, stored_message) lru"
  rateLimiter_A :: "string \<Rightarrow> bucket option"
  intervals_A :: "nat list"
  handles_A :: nat
  retries_A :: "(nat \<times> message) list"
  messageQueue_A :: "message list"
  calls_A :: "call list"

definition reply_A :: "env \<Rightarrow> msgid \<Rightarrow> jsstring \<Rightarrow> state_A \<Rightarrow> msgid outcome \<times> state_A" where
  "reply_A e target s st =
     (reply_result e (length (calls_A st)), st\<lparr> calls_A := calls_A st @ [Reply target s] \<rparr>)"

definition edit_A :: "env \<Rightarrow> msgid \<Rightarrow> jsstring \<Rightarrow> state_A \<Rightarrow> bool \<times> state_A" where
  "edit_A e target s st =
     (edit_result e (length (calls_A st)), st\<lparr> calls_A := calls_A st @ [Edit target s] \<rparr>)"

definition generate_A :: "env \<Rightarrow> message \<Rightarrow> state_A \<Rightarrow> jsstring outcome \<times> state_A" where
  "generate_A e m st =
     (generate_result e (length (calls_A st)),
      st\<lparr> calls_A := calls_A st @ [Generate (message_id m) (channelId m)] \<rparr>)"

definition setInterval_A :: "state_A \<Rightarrow> nat \<times> state_A" where
  "setInterval_A st =
     (handles_A st,
      st\<lparr> intervals_A := intervals_A st @ [handles_A st], handles_A := Suc (handles_A st) \<rparr>)"

definition clearInterval_A :: "nat \<Rightarrow> state_A \<Rightarrow> state_A" where
  "clearInterval_A h st = st\<lparr> intervals_A := removeAll h (intervals_A st) \<rparr>"

text \<open>
  Lines 136--142, the loop over what is left of a long response. \<open>prevMessage\<close> is
  assigned on line 141 and read nowhere: every chunk is sent with \<open>message.reply\<close>.
  A rejected \<open>reply\<close> leaves the loop for the \<open>catch\<close> of line 144.
\<close>

function send_rest_A ::
  "env \<Rightarrow> message \<Rightarrow> msgid \<Rightarrow> jsstring \<Rightarrow> state_A \<Rightarrow> completion \<times> state_A" where
  "send_rest_A e m prevMessage responseLeft st =
     (if responseLeft = [] then (Resolved, st)
      else case reply_A e (message_id m) (take MAX_DISCORD_MESSAGE_LENGTH responseLeft) st of
             (Throws, st1) \<Rightarrow> (Rejected, st1)
           | (Returns newMessage, st1) \<Rightarrow>
               send_rest_A e m newMessage (drop MAX_DISCORD_MESSAGE_LENGTH responseLeft)
                 (st1\<lparr> thisBotMessages_A := set_add newMessage (thisBotMessages_A st1) \<rparr>))"
  by pat_completeness auto
termination
  by (relation "measure (\<lambda>(e, m, p, responseLeft, st). length responseLeft)")
     (auto simp: MAX_DISCORD_MESSAGE_LENGTH_def)

text \<open>Lines 144--148: the \<open>catch\<close> of the second \<open>try\<close>.\<close>

definition on_error_A :: "env \<Rightarrow> msgid \<Rightarrow> nat \<Rightarrow> state_A \<Rightarrow> completion \<times> state_A" where
  "on_error_A e loadingMessage loadingAnimation st =
     (case edit_A e loadingMessage ERROR_MESSAGE (clearInterval_A loadingAnimation st) of
        (True, st1) \<Rightarrow> (Resolved, st1)
      | (False, st1) \<Rightarrow> (Rejected, st1))"

text \<open>Lines 122--143: the second \<open>try\<close>.\<close>

definition respond_A :: "env \<Rightarrow> message \<Rightarrow> msgid \<Rightarrow> nat \<Rightarrow> state_A \<Rightarrow> completion \<times> state_A" where
  "respond_A e m loadingMessage loadingAnimation st =
     (case generate_A e m st of
        (Throws, st1) \<Rightarrow> on_error_A e loadingMessage loadingAnimation st1
      | (Returns response, st1) \<Rightarrow>
          if length response \<le> MAX_DISCORD_MESSAGE_LENGTH then
            (case edit_A e loadingMessage response (clearInterval_A loadingAnimation st1) of
               (False, st2) \<Rightarrow> on_error_A e loadingMessage loadingAnimation st2
             | (True, st2) \<Rightarrow>
                 (Resolved,
                  st2\<lparr> thisBotMessages_A := set_add loadingMessage (thisBotMessages_A st2) \<rparr>))
          else
            (case edit_A e loadingMessage (take MAX_DISCORD_MESSAGE_LENGTH response)
                    (clearInterval_A loadingAnimation st1) of
               (False, st2) \<Rightarrow> on_error_A e loadingMessage loadingAnimation st2
             | (True, st2) \<Rightarrow>
                 (case send_rest_A e m loadingMessage
                         (drop MAX_DISCORD_MESSAGE_LENGTH response) st2 of
                    (Rejected, st3) \<Rightarrow> on_error_A e loadingMessage loadingAnimation st3
                  | (Resolved, st3) \<Rightarrow> (Resolved, st3))))"

text \<open>
  Lines 103--109: the loading message and its animation. The interval callback only edits
  the loading message on timer ticks and is not followed; the interval is kept as running
  until it is cleared. No other timer is started here.
\<close>

definition start_loading_A ::
  "env \<Rightarrow> message \<Rightarrow> state_A \<Rightarrow> (msgid \<times> nat) option \<times> state_A" where
  "start_loading_A e m st =
     (case reply_A e (message_id m) (LOADING_FRAMES ! 0) st of
        (Throws, st1) \<Rightarrow> (None, st1)
      | (Returns loadingMessage, st1) \<Rightarrow>
          (case setInterval_A st1 of
             (loadingAnimation, st2) \<Rightarrow> (Some (loadingMessage, loadingAnimation), st2)))"

text \<open>
  Lines 87--148: the cache write, the loading message and, when it cannot be sent, the
  retry of lines 110--120; otherwise the second \<open>try\<close>.
\<close>

definition accept_A :: "env \<Rightarrow> message \<Rightarrow> state_A \<Rightarrow> completion \<times> state_A" where
  "accept_A e m st =
     (let st1 = st\<lparr> usernames_A := (usernames_A st)(author_id m \<mapsto> author_username m),
                    messageCache_A := lru_set 500 (message_id m)
                      \<lparr> msg_id = message_id m, referenceMessageId = reference m,
                        time = createdTimestamp m, authorName = author_username m,
                        msg_text = content m \<rparr> (messageCache_A st) \<rparr>
      in case start_loading_A e m st1 of
           (None, st2) \<Rightarrow>
             (let n = (case retryCount m of None \<Rightarrow> 0 | Some k \<Rightarrow> k) in
              if n < MAX_RETRY_ATTEMPTS
              then (Resolved,
                    st2\<lparr> retries_A := retries_A st2
                           @ [(RETRY_DELAY_MS, m\<lparr> retryCount := Some (n + 1) \<rparr>)] \<rparr>)
              else (Resolved, st2))
         | (Some (loadingMessage, loadingAnimation), st3) \<Rightarrow>
             respond_A e m loadingMessage loadingAnimation st3)"

text \<open>
  \<open>handleMessage\<close> (lines 62--149); \<open>now\<close> is the clock reading when
  \<open>rateLimiter.consume\<close> is called. The warning of line 78 is sent outside any
  \<open>try\<close>: when it is rejected, so is \<open>handleMessage\<close>.
\<close>

definition handleMessage_A :: "env \<Rightarrow> int \<Rightarrow> message \<Rightarrow> state_A \<Rightarrow> completion \<times> state_A" where
  "handleMessage_A e now m st =
     (if needShutdown_A st then (Resolved, st)
      else if author_bot m then
        (Resolved,
         if author_id m = client_user_id e
         then st\<lparr> thisBotMessages_A := set_add (message_id m) (thisBotMessages_A st) \<rparr>
         else st)
      else case consume (rateLimiter_A st) (author_id m) now of
             (Denied, rl) \<Rightarrow> (Resolved, st\<lparr> rateLimiter_A := rl \<rparr>)
           | (Allowed, rl) \<Rightarrow>
               if MAX_MESSAGE_LENGTH \<le> length (content m) then
                 (case reply_A e (message_id m) LENGTH_WARNING_MESSAGE (st\<lparr> rateLimiter_A := rl \<rparr>) of
                    (Throws, st1) \<Rightarrow> (Rejected, st1)
                  | (Returns w, st1) \<Rightarrow> (Resolved, st1))
               else if \<not> isTranslatableText e (content m) then (Resolved, st\<lparr> rateLimiter_A := rl \<rparr>)
               else accept_A e m (st\<lparr> rateLimiter_A := rl \<rparr>))"

text \<open>Messages handled one after the other, each with the clock reading of its turn.\<close>

fun handle_all_A :: "env \<Rightarrow> (int \<times> message) list \<Rightarrow> state_A \<Rightarrow> state_A" where
  "handle_all_A e [] st = st"
| "handle_all_A e ((now, m) # rest) st = handle_all_A e rest (snd (handleMessage_A e now m st))"

text \<open>Every interval handle in use is older than the next handle \<open>setInterval\<close> hands out.\<close>

definition fresh_handles_A :: "state_A \<Rightarrow> bool" where
  "fresh_handles_A st \<longleftrightarrow> (\<forall>h \<in> set (intervals_A st). h < handles_A st)"

text \<open>
  \<open>d\<close> milliseconds pass while \<open>handleMessage\<close> waits for an answer. The only
  timeouts of this half are the retries of line 115: one whose delay has elapsed runs
  \<open>enqueueMessage\<close>, which pushes its message to the queue (a handler is being awaited,
  so \<open>isProcessingQueue\<close> is set); the others have that much less to wait. Nothing in
  here touches an interval.
\<close>

definition elapse_A :: "nat \<Rightarrow> state_A \<Rightarrow> state_A" where
  "elapse_A d st =
     st\<lparr> messageQueue_A := messageQueue_A st @ map snd (filter (\<lambda>p. fst p \<le> d) (retries_A st)),
         retries_A := map (\<lambda>p. (fst p - d, snd p)) (filter (\<lambda>p. d < fst p) (retries_A st)) \<rparr>"

text \<open>
  The specification's \<open>splitForDelivery\<close>: a text cut into consecutive chunks of at most
  \<open>MAX_DISCORD_MESSAGE_LENGTH\<close> code units. The source has no such function; it is the
  reference the delivery of lines 130--142 is compared with.
\<close>

function splitForDelivery :: "jsstring \<Rightarrow> jsstring list" where
  "splitForDelivery s =
     (if s = [] then []
      else take MAX_DISCORD_MESSAGE_LENGTH s # splitForDelivery (drop MAX_DISCORD_MESSAGE_LENGTH s))"
  by pat_completeness auto
termination
  by (relation "measure length") (auto simp: MAX_DISCORD_MESSAGE_LENGTH_def)

subsection \<open>Example inputs\<close>

text \<open>
  A gateway that accepts every write and hands out the ids 9, 90, 900, ... by position,
  and a \<open>generateResponse\<close> that answers with 1951 code units.
\<close>

definition long_text :: jsstring where
  "long_text = replicate 3000 0x61"

definition example_message :: message where
  "example_message =
     \<lparr> message_id = ''500'', channelId = ''c1'', author_id = ''u1'', author_bot = False,
       author_username = ascii ''ann'', content = ascii ''hello'', reference = None,
       createdTimestamp = 0, retryCount = None \<rparr>"

definition example_env :: env where
  "example_env =
     \<lparr> client_user_id = ''bot'', isTranslatableText = (\<lambda>s. True),
       reply_result = (\<lambda>n. Returns (''9'' @ replicate n CHR ''0'')),
       edit_result = (\<lambda>n. True),
       generate_result = (\<lambda>n. Returns (replicate 1951 0x62)),
       channels_fetch = (\<lambda>c. True), messages_fetch = (\<lambda>i. None),
       completion_result = (\<lambda>d. Throws) \<rparr>"

definition initial_A :: state_A where
  "initial_A =
     \<lparr> needShutdown_A = False, thisBotMessages_A = [], usernames_A = Map.empty,
       messageCache_A = [], rateLimiter_A = Map.empty, intervals_A = [], handles_A = 0,
       retries_A = [], messageQueue_A = [], calls_A = [] \<rparr>"

definition example_batch :: "(int \<times> message) list" where
  "example_batch = map (\<lambda>t. (t, example_message)) [100, 200, 300, 400]"

section \<open>\_main.js, lines 159--356: the edit-aware handler and the reply chain\<close>

text \<open>
  What \<open>messageCache\<close> holds: \<open>{ text, reference, author }\<close>, with \<open>reference\<close>
  the value of \<open>msg.reference?.messageId\<close>.
\<close>

record cached_B =
  cached_text :: jsstring
  cached_reference :: "msgid option"
  cached_author :: jsstring

text \<open>
  The globals of lines 203--208, the timers that are running or pending (a pending timeout
  is kept as its handle, the milliseconds it still has to wait and the interval its
  callback clears), and the record of calls made.
\<close>

record state_B =
  thisBotMessages_B :: "msgid list"
  processedMessages_B :: "msgid list"
  originalToReplyMap_B :: "msgid \<Rightarrow> msgid option"
  messageCache_B :: "(msgid, cached_B) lru"
  intervals_B :: "nat list"
  timeouts_B :: "(nat \<times> nat \<times> nat) list"
  handles_B :: nat
  calls_B :: "call list"

text \<open>
  Further parameters of this half: \<open>SYSTEM_PROMPT\<close> is \<open>process.env.GPT_PROMPT\<close>,
  taken as set; \<open>not_translatable\<close> stands for
  \<open>response.toLowerCase().includes(NOT_TRANSLATABLE_KEYWORD)\<close>, which rests on the
  Unicode case tables.
\<close>

record config_B =
  SYSTEM_PROMPT :: jsstring
  not_translatable :: "jsstring \<Rightarrow> bool"

definition reply_B :: "env \<Rightarrow> msgid \<Rightarrow> jsstring \<Rightarrow> state_B \<Rightarrow> msgid outcome \<times> state_B" where
  "reply_B e target s st =
     (reply_result e (length (calls_B st)), st\<lparr> calls_B := calls_B st @ [Reply target s] \<rparr>)"

definition edit_B :: "env \<Rightarrow> msgid \<Rightarrow> jsstring \<Rightarrow> state_B \<Rightarrow> bool \<times> state_B" where
  "edit_B e target s st =
     (edit_result e (length (calls_B st)), st\<lparr> calls_B := calls_B st @ [Edit target s] \<rparr>)"

text \<open>\<open>loadingMessage.delete().catch(() => null)\<close>: a failure is swallowed.\<close>

definition delete_B :: "msgid \<Rightarrow> state_B \<Rightarrow> state_B" where
  "delete_B target st = st\<lparr> calls_B := calls_B st @ [Delete target] \<rparr>"

definition setInterval_B :: "state_B \<Rightarrow> nat \<times> state_B" where
  "setInterval_B st =
     (handles_B st,
      st\<lparr> intervals_B := intervals_B st @ [handles_B st], handles_B := Suc (handles_B st) \<rparr>)"

text \<open>\<open>setTimeout(() => clearInterval(loadingInterval), delay)\<close> (line 284).\<close>

definition setTimeout_B :: "nat \<Rightarrow> nat \<Rightarrow> state_B \<Rightarrow> nat \<times> state_B" where
  "setTimeout_B delay loadingInterval st =
     (handles_B st,
      st\<lparr> timeouts_B := timeouts_B st @ [(handles_B st, delay, loadingInterval)],
          handles_B := Suc (handles_B st) \<rparr>)"

definition MAX_LOADING_DURATION_MS :: nat where
  "MAX_LOADING_DURATION_MS = 10000"

text \<open>\<open>clearInterval(undefined)\<close> and \<open>clearTimeout(undefined)\<close> do nothing.\<close>

definition clearInterval_B :: "nat option \<Rightarrow> state_B \<Rightarrow> state_B" where
  "clearInterval_B h st =
     (case h of None \<Rightarrow> st | Some i \<Rightarrow> st\<lparr> intervals_B := removeAll i (intervals_B st) \<rparr>)"

definition clearTimeout_B :: "nat option \<Rightarrow> state_B \<Rightarrow> state_B" where
  "clearTimeout_B h st =
     (case h of
        None \<Rightarrow> st
      | Some t \<Rightarrow> st\<lparr> timeouts_B := filter (\<lambda>p. fst p \<noteq> t) (timeouts_B st) \<rparr>)"

subsection \<open>generateResponse\<close>

text \<open>
  One round of the \<open>while (true)\<close> of lines 337--347 up to line 343: the cache, then the
  gateway. \<open>Vanished\<close> is \<open>messageCache.get\<close> answering \<open>undefined\<close> right after
  \<open>has\<close> or \<open>set\<close>, where \<open>cached.text\<close> throws.
\<close>

datatype resolution = DeadEnd | Found cached_B | Vanished

definition read_B :: "msgid \<Rightarrow> state_B \<Rightarrow> resolution \<times> state_B" where
  "read_B i st =
     (case lru_get i (messageCache_B st) of
        (None, c) \<Rightarrow> (Vanished, st\<lparr> messageCache_B := c \<rparr>)
      | (Some cached, c) \<Rightarrow> (Found cached, st\<lparr> messageCache_B := c \<rparr>))"

definition resolve_B :: "env \<Rightarrow> msgid \<Rightarrow> state_B \<Rightarrow> resolution \<times> state_B" where
  "resolve_B e lastChainId st =
     (if lru_has lastChainId (messageCache_B st) then read_B lastChainId st
      else case messages_fetch e lastChainId of
             None \<Rightarrow> (DeadEnd, st\<lparr> calls_B := calls_B st @ [FetchMessage lastChainId] \<rparr>)
           | Some msg \<Rightarrow>
               read_B lastChainId
                 (st\<lparr> calls_B := calls_B st @ [FetchMessage lastChainId],
                      messageCache_B := lru_set 1000 lastChainId
                        \<lparr> cached_text = content msg, cached_reference = reference msg,
                          cached_author = author_username msg \<rparr> (messageCache_B st) \<rparr>))"

text \<open>Line 344: the turn pushed for a resolved id.\<close>

definition turn_for :: "msgid list \<Rightarrow> msgid \<Rightarrow> cached_B \<Rightarrow> turn" where
  "turn_for bots lastChainId cached =
     \<lparr> turn_role = (if lastChainId \<in> set bots then Assistant else User),
       turn_content = cached_text cached, turn_name = Some (cached_author cached) \<rparr>"

text \<open>Line 345, \<open>if (!cached.reference) break\<close>: undefined and the empty string end the walk.\<close>

definition next_reference :: "cached_B \<Rightarrow> msgid option" where
  "next_reference cached =
     (case cached_reference cached of
        None \<Rightarrow> None
      | Some r \<Rightarrow> if r = [] then None else Some r)"

text \<open>
  The loop of lines 337--347. Nothing bounds the number of rounds, so the loop is a
  partial function: \<open>None\<close> is a walk that does not return.
\<close>

partial_function (option) walk_B ::
  "env \<Rightarrow> state_B \<Rightarrow> turn list \<Rightarrow> msgid \<Rightarrow> (turn list outcome \<times> state_B) option" where
  "walk_B e st dialog lastChainId =
     (case resolve_B e lastChainId st of
        (DeadEnd, st1) \<Rightarrow> Some (Returns dialog, st1)
      | (Vanished, st1) \<Rightarrow> Some (Throws, st1)
      | (Found cached, st1) \<Rightarrow>
          (case next_reference cached of
             None \<Rightarrow>
               Some (Returns (dialog @ [turn_for (thisBotMessages_B st1) lastChainId cached]), st1)
           | Some r \<Rightarrow>
               walk_B e st1 (dialog @ [turn_for (thisBotMessages_B st1) lastChainId cached]) r))"

definition system_turn :: "config_B \<Rightarrow> turn" where
  "system_turn cfg = \<lparr> turn_role = System, turn_content = SYSTEM_PROMPT cfg, turn_name = None \<rparr>"

text \<open>
  Lines 333--350 of \<open>generateResponse\<close> without line 335: the walk from \<open>messageId\<close>,
  \<open>dialog.reverse()\<close> and the push of the instruction turn. The result is the array
  handed to the language model.
\<close>

definition dialog_B ::
  "env \<Rightarrow> config_B \<Rightarrow> msgid \<Rightarrow> state_B \<Rightarrow> (turn list outcome \<times> state_B) option" where
  "dialog_B e cfg messageId st =
     (case walk_B e st [] messageId of
        None \<Rightarrow> None
      | Some (Throws, st1) \<Rightarrow> Some (Throws, st1)
      | Some (Returns dialog, st1) \<Rightarrow> Some (Returns (rev dialog @ [system_turn cfg]), st1))"

text \<open>
  \<open>generateResponse\<close> (lines 332--354). The result is \<open>res.choices[0].message.content\<close>,
  which may be \<open>null\<close>; a failure of the request or of that access rejects.
\<close>

definition generateResponse_B ::
  "env \<Rightarrow> config_B \<Rightarrow> msgid \<Rightarrow> string \<Rightarrow> state_B \<Rightarrow> (jsstring option outcome \<times> state_B) option"
where
  "generateResponse_B e cfg messageId channel st =
     (if \<not> channels_fetch e channel
      then Some (Throws, st\<lparr> calls_B := calls_B st @ [FetchChannel channel] \<rparr>)
      else case dialog_B e cfg messageId (st\<lparr> calls_B := calls_B st @ [FetchChannel channel] \<rparr>) of
             None \<Rightarrow> None
           | Some (Throws, st1) \<Rightarrow> Some (Throws, st1)
           | Some (Returns messages, st1) \<Rightarrow>
               Some (completion_result e messages,
                     st1\<lparr> calls_B := calls_B st1 @ [Completion messages] \<rparr>))"

text \<open>
  A reply chain as the walk meets it: the ids from \<open>lastChainId\<close> on with the records
  they resolve to, through the cache or else the gateway, each next id being the
  \<open>reference\<close> of the record before. The chain ends at a record without reference (a
  root) or before an id that does not resolve (a dead end).
\<close>

inductive visits :: "env \<Rightarrow> state_B \<Rightarrow> msgid \<Rightarrow> (msgid \<times> cached_B) list \<Rightarrow> state_B \<Rightarrow> bool" where
  dead: "resolve_B e i st = (DeadEnd, st1) \<Longrightarrow> visits e st i [] st1"
| root: "resolve_B e i st = (Found c, st1) \<Longrightarrow> next_reference c = None \<Longrightarrow>
     visits e st i [(i, c)] st1"
| link: "resolve_B e i st = (Found c, st1) \<Longrightarrow> next_reference c = Some r \<Longrightarrow>
     visits e st1 r chain st2 \<Longrightarrow> visits e st i ((i, c) # chain) st2"

text \<open>Every link of the chain resolved: the chain is not empty and ends at a root.\<close>

definition ends_at_root :: "(msgid \<times> cached_B) list \<Rightarrow> bool" where
  "ends_at_root chain \<longleftrightarrow> chain \<noteq> [] \<and> next_reference (snd (last chain)) = None"

text \<open>
  A chain written down link by link: each record refers to the id of the next entry and
  the last record is a root.
\<close>

fun linked :: "(msgid \<times> cached_B) list \<Rightarrow> bool" where
  "linked [] = False"
| "linked [(i, c)] = (next_reference c = None)"
| "linked ((i, c) # (j, d) # rest) = (next_reference c = Some j \<and> linked ((j, d) # rest))"

subsection \<open>handleMessage\<close>

text \<open>
  \<open>message.channel.messages.fetch(originalToReplyMap.get(message.id)).catch(() => null)\<close>
  (lines 297 and 315), reached only when \<open>hasReply\<close> holds.
\<close>

definition fetch_existing_B :: "env \<Rightarrow> message \<Rightarrow> state_B \<Rightarrow> msgid option \<times> state_B" where
  "fetch_existing_B e m st =
     (case originalToReplyMap_B st (message_id m) of
        None \<Rightarrow> (None, st)
      | Some old \<Rightarrow>
          (map_option message_id (messages_fetch e old),
           st\<lparr> calls_B := calls_B st @ [FetchMessage old] \<rparr>))"

text \<open>
  The \<open>catch\<close> of lines 310--329. \<open>loadingMessage\<close> is \<open>None\<close> when the loading message
  could not be sent; line 319 then throws on \<open>undefined\<close>. Nothing catches a rejection
  in here.
\<close>

definition fail_B ::
  "env \<Rightarrow> message \<Rightarrow> bool \<Rightarrow> msgid option \<Rightarrow> nat option \<Rightarrow> nat option \<Rightarrow> state_B
     \<Rightarrow> completion \<times> state_B" where
  "fail_B e m hasReply loadingMessage loadingInterval loadingTimeout st =
     (case (if hasReply
            then fetch_existing_B e m (clearTimeout_B loadingTimeout (clearInterval_B loadingInterval st))
            else (None, clearTimeout_B loadingTimeout (clearInterval_B loadingInterval st))) of
        (Some existing, st1) \<Rightarrow>
          (case edit_B e existing ERROR_MESSAGE st1 of
             (False, st2) \<Rightarrow> (Rejected, st2)
           | (True, st2) \<Rightarrow>
               (case loadingMessage of
                  None \<Rightarrow> (Rejected, st2)
                | Some l \<Rightarrow> (Resolved, delete_B l st2)))
      | (None, st1) \<Rightarrow>
          (case loadingMessage of
             Some l \<Rightarrow>
               (case edit_B e l ERROR_MESSAGE st1 of
                  (False, st2) \<Rightarrow> (Rejected, st2)
                | (True, st2) \<Rightarrow> (Resolved, st2))
           | None \<Rightarrow>
               (case reply_B e (message_id m) ERROR_MESSAGE st1 of
                  (Throws, st2) \<Rightarrow> (Rejected, st2)
                | (Returns w, st2) \<Rightarrow> (Resolved, st2))))"

text \<open>Lines 290--309, after both timers have been cleared.\<close>

definition finish_B ::
  "env \<Rightarrow> config_B \<Rightarrow> message \<Rightarrow> bool \<Rightarrow> msgid \<Rightarrow> nat \<Rightarrow> nat \<Rightarrow> jsstring option \<Rightarrow> state_B
     \<Rightarrow> completion \<times> state_B" where
  "finish_B e cfg m hasReply l i t response st =
     (case response of
        None \<Rightarrow> (Resolved, delete_B l st)
      | Some r \<Rightarrow>
          if r = [] \<or> not_translatable cfg r then (Resolved, delete_B l st)
          else (case (if hasReply then fetch_existing_B e m st else (None, st)) of
                  (Some existing, st1) \<Rightarrow>
                    (case edit_B e existing r st1 of
                       (False, st2) \<Rightarrow> fail_B e m hasReply (Some l) (Some i) (Some t) st2
                     | (True, st2) \<Rightarrow> (Resolved, delete_B l st2))
                | (None, st1) \<Rightarrow>
                    (case edit_B e l r st1 of
                       (False, st2) \<Rightarrow> fail_B e m hasReply (Some l) (Some i) (Some t) st2
                     | (True, st2) \<Rightarrow>
                         (Resolved,
                          st2\<lparr> thisBotMessages_B := set_add l (thisBotMessages_B st2),
                               originalToReplyMap_B :=
                                 (originalToReplyMap_B st2)(message_id m \<mapsto> l) \<rparr>))))"

text \<open>
  Lines 276--284: the loading message and its two timers. The interval callback only
  edits the loading message on timer ticks and is not followed.
\<close>

definition start_loading_B ::
  "env \<Rightarrow> message \<Rightarrow> state_B \<Rightarrow> (msgid \<times> nat \<times> nat) option \<times> state_B" where
  "start_loading_B e m st =
     (case reply_B e (message_id m) (LOADING_FRAMES ! 0) st of
        (Throws, st1) \<Rightarrow> (None, st1)
      | (Returns l, st1) \<Rightarrow>
          (case setInterval_B st1 of
             (i, st2) \<Rightarrow> (case setTimeout_B MAX_LOADING_DURATION_MS i st2 of
                          (t, st3) \<Rightarrow> (Some (l, i, t), st3))))"

text \<open>Lines 274--309, the \<open>try\<close> with its \<open>catch\<close>.\<close>

definition try_B ::
  "env \<Rightarrow> config_B \<Rightarrow> message \<Rightarrow> bool \<Rightarrow> state_B \<Rightarrow> (completion \<times> state_B) option" where
  "try_B e cfg m hasReply st =
     (case start_loading_B e m st of
        (None, st1) \<Rightarrow> Some (fail_B e m hasReply None None None st1)
      | (Some (l, i, t), st3) \<Rightarrow>
          (case generateResponse_B e cfg (message_id m) (channelId m) st3 of
             None \<Rightarrow> None
           | Some (Throws, st4) \<Rightarrow> Some (fail_B e m hasReply (Some l) (Some i) (Some t) st4)
           | Some (Returns response, st4) \<Rightarrow>
               Some (finish_B e cfg m hasReply l i t response
                       (clearTimeout_B (Some t) (clearInterval_B (Some i) st4)))))"

text \<open>Lines 260 and 269: the message is marked as processed and written to the cache.\<close>

definition prepared_B :: "message \<Rightarrow> state_B \<Rightarrow> state_B" where
  "prepared_B m st =
     st\<lparr> processedMessages_B := set_add (message_id m) (processedMessages_B st),
         messageCache_B := lru_set 1000 (message_id m)
           \<lparr> cached_text = content m, cached_reference = reference m,
             cached_author = author_username m \<rparr> (messageCache_B st) \<rparr>"

text \<open>\<open>handleMessage\<close> (lines 254--330).\<close>

definition handleMessage_B ::
  "env \<Rightarrow> config_B \<Rightarrow> message \<Rightarrow> state_B \<Rightarrow> (completion \<times> state_B) option" where
  "handleMessage_B e cfg m st =
     (if author_bot m then Some (Resolved, st)
      else if message_id m \<in> set (processedMessages_B st)
              \<and> originalToReplyMap_B st (message_id m) = None
      then Some (Resolved, st)
      else if MAX_MESSAGE_LENGTH \<le> length (content m) then
        (case reply_B e (message_id m) LENGTH_WARNING_MESSAGE
                (st\<lparr> processedMessages_B := set_add (message_id m) (processedMessages_B st) \<rparr>) of
           (Throws, st1) \<Rightarrow> Some (Rejected, st1)
         | (Returns w, st1) \<Rightarrow> Some (Resolved, st1))
      else if \<not> isTranslatableText e (content m)
      then Some (Resolved,
                 st\<lparr> processedMessages_B := set_add (message_id m) (processedMessages_B st) \<rparr>)
      else try_B e cfg m (originalToReplyMap_B st (message_id m) \<noteq> None) (prepared_B m st))"

subsection \<open>The queue\<close>

text \<open>
  The queue of lines 228--244 with the bot state it serves. \<open>running_B\<close> holds the
  messages whose \<open>handleMessage\<close> a \<open>processQueue\<close> loop is awaiting, and
  \<open>started_B\<close> records every message handed to \<open>handleMessage\<close>, in order.
\<close>

record worker_B =
  bot_B :: state_B
  messageQueue_B :: "message list"
  isProcessingQueue_B :: bool
  running_B :: "message list"
  started_B :: "message list"

text \<open>
  The head of the \<open>while\<close> of lines 239--242 up to its \<open>await\<close>, and line 243
  when the queue is empty.
\<close>

definition next_B :: "worker_B \<Rightarrow> worker_B" where
  "next_B w =
     (case messageQueue_B w of
        [] \<Rightarrow> w\<lparr> isProcessingQueue_B := False \<rparr>
      | nextMessage # rest \<Rightarrow>
          w\<lparr> messageQueue_B := rest, running_B := running_B w @ [nextMessage],
              started_B := started_B w @ [nextMessage] \<rparr>)"

definition processQueue_B :: "worker_B \<Rightarrow> worker_B" where
  "processQueue_B w = next_B (w\<lparr> isProcessingQueue_B := True \<rparr>)"

definition enqueueMessage_B :: "message \<Rightarrow> worker_B \<Rightarrow> worker_B" where
  "enqueueMessage_B m w =
     (if author_bot m then w
      else if \<not> isProcessingQueue_B w
      then processQueue_B (w\<lparr> messageQueue_B := messageQueue_B w @ [m] \<rparr>)
      else w\<lparr> messageQueue_B := messageQueue_B w @ [m] \<rparr>)"

text \<open>
  The awaited \<open>handleMessage\<close> settles. Its effects are applied in one step: the
  handler does not read the queue, and what arrives while it waits only appends to the
  queue. When it resolves the loop goes on; when it rejects, \<open>processQueue\<close> rejects
  too and line 243 is not reached. \<open>None\<close> is a handler that never settles.
\<close>

definition settle_B :: "env \<Rightarrow> config_B \<Rightarrow> worker_B \<Rightarrow> worker_B option" where
  "settle_B e cfg w =
     (case running_B w of
        [] \<Rightarrow> Some w
      | m # others \<Rightarrow>
          (case handleMessage_B e cfg m (bot_B w) of
             None \<Rightarrow> None
           | Some (Resolved, st) \<Rightarrow> Some (next_B (w\<lparr> bot_B := st, running_B := others \<rparr>))
           | Some (Rejected, st) \<Rightarrow> Some (w\<lparr> bot_B := st, running_B := others \<rparr>)))"

text \<open>
  What happens to the bot: a \<open>messageCreate\<close> (line 246), a \<open>messageUpdate\<close> whose
  message is complete (lines 248--252), or the settling of the awaited handler.
\<close>

datatype event_B = Created message | Updated message | Settled

fun step_B :: "env \<Rightarrow> config_B \<Rightarrow> event_B \<Rightarrow> worker_B \<Rightarrow> worker_B option" where
  "step_B e cfg (Created m) w = Some (enqueueMessage_B m w)"
| "step_B e cfg (Updated m) w =
     Some (if content m = [] \<or> author_bot m then w else enqueueMessage_B m w)"
| "step_B e cfg Settled w = settle_B e cfg w"

fun run_B :: "env \<Rightarrow> config_B \<Rightarrow> event_B list \<Rightarrow> worker_B \<Rightarrow> worker_B option" where
  "run_B e cfg [] w = Some w"
| "run_B e cfg (ev # evs) w =
     (case step_B e cfg ev w of None \<Rightarrow> None | Some w1 \<Rightarrow> run_B e cfg evs w1)"

text \<open>The messages a list of events puts into the queue, in order.\<close>

fun queued_by :: "event_B list \<Rightarrow> message list" where
  "queued_by [] = []"
| "queued_by (Created m # evs) = (if author_bot m then [] else [m]) @ queued_by evs"
| "queued_by (Updated m # evs) =
     (if content m = [] \<or> author_bot m then [] else [m]) @ queued_by evs"
| "queued_by (Settled # evs) = queued_by evs"

definition idle_B :: "worker_B \<Rightarrow> bool" where
  "idle_B w \<longleftrightarrow>
     messageQueue_B w = [] \<and> \<not> isProcessingQueue_B w \<and> running_B w = [] \<and> started_B w = []"

text \<open>
  What holds of the queue at all times: at most one handler is awaited, it is the one
  started last, and the queue is only non-empty, or a handler only awaited, while
  \<open>isProcessingQueue\<close> is set.
\<close>

definition queue_inv :: "worker_B \<Rightarrow> bool" where
  "queue_inv w \<longleftrightarrow>
     (running_B w = [] \<or> running_B w = [last (started_B w)])
     \<and> (isProcessingQueue_B w \<or> (messageQueue_B w = [] \<and> running_B w = []))"

text \<open>
  The ids of the messages that a record of calls replies to, in the order of the calls.
\<close>

fun reply_targets :: "call list \<Rightarrow> msgid list" where
  "reply_targets [] = []"
| "reply_targets (Reply target s # cs) = target # reply_targets cs"
| "reply_targets (c # cs) = reply_targets cs"

text \<open>
  The first message replied to \<open>ks ! 0\<close> times, then the second \<open>ks ! 1\<close> times, and so
  on, for as many messages as \<open>ks\<close> has entries.
\<close>

definition replies_of :: "nat list \<Rightarrow> message list \<Rightarrow> msgid list" where
  "replies_of ks ms = concat (map (\<lambda>(k, m). replicate k (message_id m)) (zip ks ms))"

text \<open>
  From \<open>st\<close> to \<open>st'\<close> the record of calls has only grown, and every reply added is a
  reply to \<open>m\<close>.
\<close>

definition posts_for :: "message \<Rightarrow> state_B \<Rightarrow> state_B \<Rightarrow> bool" where
  "posts_for m st st' \<longleftrightarrow>
     (\<exists>cs k. calls_B st' = calls_B st @ cs \<and> reply_targets cs = replicate k (message_id m))"

text \<open>
  Since \<open>w0\<close> the record of calls has only grown, and the replies added are replies to
  the messages whose handler has settled, message by message in the order in which the
  handlers were started.
\<close>

definition posted_in_order :: "worker_B \<Rightarrow> worker_B \<Rightarrow> bool" where
  "posted_in_order w0 w \<longleftrightarrow>
     (\<exists>cs ks. calls_B (bot_B w) = calls_B (bot_B w0) @ cs
        \<and> length ks + length (running_B w) = length (started_B w)
        \<and> reply_targets cs = replies_of ks (started_B w))"

text \<open>Every timer handle in use is older than the next handle \<open>setInterval\<close> hands out.\<close>

definition fresh_handles_B :: "state_B \<Rightarrow> bool" where
  "fresh_handles_B st \<longleftrightarrow>
     (\<forall>h \<in> set (intervals_B st). h < handles_B st)
     \<and> (\<forall>p \<in> set (timeouts_B st). fst p < handles_B st \<and> snd (snd p) < handles_B st)"

text \<open>
  \<open>d\<close> milliseconds pass while \<open>handleMessage\<close> waits for an answer: every pending
  timeout whose delay has elapsed runs its callback, \<open>clearInterval\<close> of its interval,
  and is gone; the others have that much less to wait.
\<close>

definition elapse_B :: "nat \<Rightarrow> state_B \<Rightarrow> state_B" where
  "elapse_B d st =
     st\<lparr> intervals_B :=
           filter (\<lambda>h. h \<notin> set (map (\<lambda>p. snd (snd p))
                                  (filter (\<lambda>p. fst (snd p) \<le> d) (timeouts_B st))))
             (intervals_B st),
         timeouts_B :=
           map (\<lambda>p. (fst p, fst (snd p) - d, snd (snd p)))
             (filter (\<lambda>p. d < fst (snd p)) (timeouts_B st)) \<rparr>"

subsection \<open>Example inputs\<close>

definition example_cfg :: config_B where
  "example_cfg = \<lparr> SYSTEM_PROMPT = ascii ''Translate.'', not_translatable = (\<lambda>r. False) \<rparr>"

definition initial_B :: state_B where
  "initial_B =
     \<lparr> thisBotMessages_B = [], processedMessages_B = [], originalToReplyMap_B = Map.empty,
       messageCache_B = [], intervals_B = [], timeouts_B = [], handles_B = 0, calls_B = [] \<rparr>"

text \<open>
  A cache in which message 1 is a reply to message 2 and message 2 a reply to message 1.
\<close>

definition cyclic_cache :: "(msgid, cached_B) lru" where
  "cyclic_cache =
     [(''1'', \<lparr> cached_text = ascii ''a'', cached_reference = Some ''2'', cached_author = ascii ''ann'' \<rparr>),
      (''2'', \<lparr> cached_text = ascii ''b'', cached_reference = Some ''1'', cached_author = ascii ''bob'' \<rparr>)]"

text \<open>
  The walk is at one of the two ids and the cache still answers for both as
  \<open>cyclic_cache\<close> does.
\<close>

definition in_cycle :: "state_B \<Rightarrow> msgid \<Rightarrow> bool" where
  "in_cycle st i \<longleftrightarrow>
     (i = ''1'' \<or> i = ''2'')
     \<and> map_of (messageCache_B st) ''1'' = map_of cyclic_cache ''1''
     \<and> map_of (messageCache_B st) ''2'' = map_of cyclic_cache ''2''"

text \<open>
  A chain of three: the user message 3 (cached) replies to the bot's message 2 (only the
  gateway has it), which replies to the user message 1 (cached), a root.
\<close>

definition example_parent :: message where
  "example_parent =
     \<lparr> message_id = ''2'', channelId = ''c1'', author_id = ''bot'', author_bot = True,
       author_username = ascii ''OnionBot'', content = ascii ''thanks'', reference = Some ''1'',
       createdTimestamp = 0, retryCount = None \<rparr>"

definition example_gateway :: env where
  "example_gateway =
     example_env\<lparr> messages_fetch := (\<lambda>i. if i = ''2'' then Some example_parent else None) \<rparr>"

definition example_chain :: "(msgid \<times> cached_B) list" where
  "example_chain =
     [(''3'', \<lparr> cached_text = ascii ''merci'', cached_reference = Some ''2'',
               cached_author = ascii ''ann'' \<rparr>),
      (''2'', \<lparr> cached_text = ascii ''thanks'', cached_reference = Some ''1'',
               cached_author = ascii ''OnionBot'' \<rparr>),
      (''1'', \<lparr> cached_text = ascii ''danke'', cached_reference = None,
               cached_author = ascii ''ann'' \<rparr>)]"

definition chain_state :: state_B where
  "chain_state =
     initial_B\<lparr> thisBotMessages_B := [''2''],
                 messageCache_B := [example_chain ! 0, example_chain ! 2] \<rparr>"

definition chain_state_after :: state_B where
  "chain_state_after =
     chain_state\<lparr> messageCache_B := rev example_chain, calls_B := [FetchMessage ''2''] \<rparr>"

text \<open>
  A second user message, an idle worker, and a run: two user messages and one message
  of the bot arrive, then two handlers settle.
\<close>

definition unseen_message :: message where
  "unseen_message = example_message\<lparr> message_id := ''501'', content := ascii ''bonjour'' \<rparr>"

definition idle_worker :: worker_B where
  "idle_worker =
     \<lparr> bot_B = initial_B, messageQueue_B = [], isProcessingQueue_B = False, running_B = [],
       started_B = [] \<rparr>"

definition example_events :: "event_B list" where
  "example_events =
     [Created example_message, Created unseen_message, Created example_parent, Settled, Settled]"

text \<open>A language model that answers every dialog with ``hi''.\<close>

definition answering_env :: env where
  "answering_env = example_env\<lparr> completion_result := (\<lambda>d. Returns (Some (ascii ''hi''))) \<rparr>"

text \<open>
  Message 500 has been answered before by message 77, which the gateway still has; the
  user now edits message 500.
\<close>

definition earlier_reply :: message where
  "earlier_reply = example_parent\<lparr> message_id := ''77'', reference := Some ''500'' \<rparr>"

definition answered_state :: state_B where
  "answered_state =
     initial_B\<lparr> thisBotMessages_B := [''77''], processedMessages_B := [''500''],
                 originalToReplyMap_B := [''500'' \<mapsto> ''77''] \<rparr>"

definition answered_gateway :: env where
  "answered_gateway =
     example_env\<lparr> messages_fetch := (\<lambda>i. if i = ''77'' then Some earlier_reply else None) \<rparr>"

text \<open>
  A gateway that rejects every edit (and a language model that fails, as in
  \<open>example_env\<close>); the second message arrives when the handler of the first has settled.
\<close>

definition rejecting_gateway :: env where
  "rejecting_gateway = example_env\<lparr> edit_result := (\<lambda>n. False) \<rparr>"

definition later_events :: "event_B list" where
  "later_events = [Created example_message, Settled, Created unseen_message, Settled]"

section \<open>Facts about the shared values\<close>

lemma length_ascii [simp]: "length (ascii s) = length s"
  by (simp add: ascii_def)

lemma ascii_eq_Nil [simp]: "ascii s = [] \<longleftrightarrow> s = []"
  by (simp add: ascii_def)

section \<open>The hourly cleaning: proofs\<close>

subsection \<open>One backward walk\<close>

lemma useful_walk_seen:
  "cur \<in> useful \<Longrightarrow> useful_walk am (useful, bots) cur = (useful, bots)"
  by simp

lemma useful_walk_gone:
  "cur \<notin> useful \<Longrightarrow> fmlookup am cur = None \<Longrightarrow>
     useful_walk am (useful, bots) cur = (useful, removeAll cur bots)"
  by simp

lemma useful_walk_root:
  "cur \<notin> useful \<Longrightarrow> fmlookup am cur = Some m \<Longrightarrow> referenceMessageId m = None \<Longrightarrow>
     useful_walk am (useful, bots) cur = (insert cur useful, bots)"
  by simp

lemma useful_walk_step:
  "cur \<notin> useful \<Longrightarrow> fmlookup am cur = Some m \<Longrightarrow> referenceMessageId m = Some r \<Longrightarrow>
     useful_walk am (useful, bots) cur = useful_walk am (insert cur useful, bots) r"
  by simp

declare useful_walk.simps [simp del]

lemma useful_walk_induct4 [case_names seen gone root step]:
  fixes am :: "(msgid, stored_message) fmap"
  assumes "\<And>useful cur. cur \<in> useful \<Longrightarrow> P useful cur"
    and "\<And>useful cur. cur \<notin> useful \<Longrightarrow> fmlookup am cur = None \<Longrightarrow> P useful cur"
    and "\<And>useful cur m. cur \<notin> useful \<Longrightarrow> fmlookup am cur = Some m \<Longrightarrow>
           referenceMessageId m = None \<Longrightarrow> P useful cur"
    and "\<And>useful cur m r. cur \<notin> useful \<Longrightarrow> fmlookup am cur = Some m \<Longrightarrow>
           referenceMessageId m = Some r \<Longrightarrow> P (insert cur useful) r \<Longrightarrow> P useful cur"
  shows "P useful cur"
  using assms
proof (induction am "(useful, bots :: msgid list)" cur arbitrary: useful rule: useful_walk.induct)
  case (1 am useful cur)
  show ?case
  proof (cases "cur \<in> useful")
    case True then show ?thesis by (rule "1.prems"(1))
  next
    case False
    show ?thesis
    proof (cases "fmlookup am cur")
      case None with False show ?thesis by (rule "1.prems"(2))
    next
      case (Some m)
      show ?thesis
      proof (cases "referenceMessageId m")
        case None with False Some show ?thesis by (rule "1.prems"(3))
      next
        case (Some r)
        have "P (insert cur useful) r"
          by (rule "1.hyps" [OF False \<open>fmlookup am cur = Some m\<close> Some "1.prems"])
        with False \<open>fmlookup am cur = Some m\<close> Some show ?thesis by (rule "1.prems"(4))
      qed
    qed
  qed
qed

lemma useful_walk_mono: "useful \<subseteq> fst (useful_walk am (useful, bots) cur)"
proof (induction useful cur rule: useful_walk_induct4 [where am = am])
  case (seen useful cur) then show ?case by (simp add: useful_walk_seen)
next
  case (gone useful cur) then show ?case by (simp add: useful_walk_gone)
next
  case (root useful cur m) then show ?case by (auto simp: useful_walk_root)
next
  case (step useful cur m r)
  have "useful_walk am (useful, bots) cur = useful_walk am (insert cur useful, bots) r"
    using step.hyps by (rule useful_walk_step)
  with step.IH show ?case by auto
qed

lemma useful_walk_start:
  "fmlookup am cur = Some m \<Longrightarrow> cur \<in> fst (useful_walk am (useful, bots) cur)"
proof (cases "cur \<in> useful")
  case True then show ?thesis by (simp add: useful_walk_seen)
next
  case False
  assume m: "fmlookup am cur = Some m"
  show ?thesis
  proof (cases "referenceMessageId m")
    case None with False m show ?thesis by (simp add: useful_walk_root)
  next
    case (Some r)
    have "insert cur useful \<subseteq> fst (useful_walk am (insert cur useful, bots) r)"
      by (rule useful_walk_mono)
    with False m Some show ?thesis by (simp add: useful_walk_step)
  qed
qed

lemma useful_walk_new_closed:
  "x \<in> fst (useful_walk am (useful, bots) cur) \<Longrightarrow> x \<notin> useful \<Longrightarrow>
   fmlookup am x = Some m \<Longrightarrow> referenceMessageId m = Some r \<Longrightarrow> fmlookup am r = Some m' \<Longrightarrow>
   r \<in> fst (useful_walk am (useful, bots) cur)"
proof (induction useful cur rule: useful_walk_induct4 [where am = am])
  case (seen useful cur) then show ?case by (simp add: useful_walk_seen useful_walk_gone useful_walk_root)
next
  case (gone useful cur) then show ?case by (simp add: useful_walk_seen useful_walk_gone useful_walk_root)
next
  case (root useful cur m0) then show ?case by (auto simp: useful_walk_root)
next
  case (step useful cur m0 r0)
  have eq: "useful_walk am (useful, bots) cur = useful_walk am (insert cur useful, bots) r0"
    using step.hyps by (simp add: useful_walk_step)
  show ?case
  proof (cases "x = cur")
    case True
    with step.hyps step.prems have "r0 = r" by simp
    with step.prems show ?thesis unfolding eq by (simp add: useful_walk_start)
  next
    case False
    with step.prems have "x \<notin> insert cur useful" by simp
    with step.IH step.prems show ?thesis unfolding eq by blast
  qed
qed

lemma useful_walk_closed:
  assumes "parent_closed am useful"
  shows "parent_closed am (fst (useful_walk am (useful, bots) cur))"
  unfolding parent_closed_def
proof (intro allI impI)
  fix x m r m'
  assume x: "x \<in> fst (useful_walk am (useful, bots) cur)"
    and m: "fmlookup am x = Some m" "referenceMessageId m = Some r" "fmlookup am r = Some m'"
  show "r \<in> fst (useful_walk am (useful, bots) cur)"
  proof (cases "x \<in> useful")
    case True
    with assms m have "r \<in> useful" unfolding parent_closed_def by blast
    then show ?thesis using useful_walk_mono by blast
  next
    case False
    show ?thesis by (rule useful_walk_new_closed [OF x False m])
  qed
qed

lemma useful_walk_sound:
  assumes "useful \<subseteq> useful_spec am B"
    and "\<And>m. fmlookup am cur = Some m \<Longrightarrow> cur \<in> useful_spec am B"
  shows "fst (useful_walk am (useful, bots) cur) \<subseteq> useful_spec am B"
  using assms
proof (induction useful cur rule: useful_walk_induct4 [where am = am])
  case (seen useful cur) then show ?case by (simp add: useful_walk_seen useful_walk_gone useful_walk_root)
next
  case (gone useful cur) then show ?case by (simp add: useful_walk_seen useful_walk_gone useful_walk_root)
next
  case (root useful cur m0) then show ?case by (simp add: useful_walk_seen useful_walk_gone useful_walk_root)
next
  case (step useful cur m0 r0)
  have c: "cur \<in> useful_spec am B" using step.prems(2) step.hyps(2) by blast
  have "fst (useful_walk am (insert cur useful, bots) r0) \<subseteq> useful_spec am B"
  proof (rule step.IH)
    show "insert cur useful \<subseteq> useful_spec am B" using c step.prems(1) by simp
    show "\<And>m. fmlookup am r0 = Some m \<Longrightarrow> r0 \<in> useful_spec am B"
      using c step.hyps by (blast intro: useful_spec.parent)
  qed
  then show ?case using step.hyps by (simp add: useful_walk_step)
qed

lemma useful_walk_bots_subset:
  "set (snd (useful_walk am (useful, bots) cur)) \<subseteq> set bots"
proof (induction useful cur rule: useful_walk_induct4 [where am = am])
  case (seen useful cur) then show ?case by (simp add: useful_walk_seen)
next
  case (gone useful cur) then show ?case by (auto simp: useful_walk_gone)
next
  case (root useful cur m) then show ?case by (simp add: useful_walk_root)
next
  case (step useful cur m r)
  have "useful_walk am (useful, bots) cur = useful_walk am (insert cur useful, bots) r"
    using step.hyps by (rule useful_walk_step)
  with step.IH show ?case by simp
qed

lemma filter_removeAll_absent:
  "\<not> P x \<Longrightarrow> filter P (removeAll x xs) = filter P xs"
  by (induction xs) auto

lemma useful_walk_bots_kept:
  "filter (\<lambda>b. b \<in> fmdom' am) (snd (useful_walk am (useful, bots) cur))
     = filter (\<lambda>b. b \<in> fmdom' am) bots"
proof (induction useful cur rule: useful_walk_induct4 [where am = am])
  case (seen useful cur) then show ?case by (simp add: useful_walk_seen)
next
  case (gone useful cur)
  then have "cur \<notin> fmdom' am" by (simp add: fmdom'_notI)
  then have "filter (\<lambda>b. b \<in> fmdom' am) (removeAll cur bots) = filter (\<lambda>b. b \<in> fmdom' am) bots"
    by (rule filter_removeAll_absent)
  with gone show ?case by (simp add: useful_walk_gone)
next
  case (root useful cur m) then show ?case by (simp add: useful_walk_root)
next
  case (step useful cur m r)
  have "useful_walk am (useful, bots) cur = useful_walk am (insert cur useful, bots) r"
    using step.hyps by (rule useful_walk_step)
  with step.IH show ?case by simp
qed

lemma useful_walk_bots_start:
  "cur \<notin> useful \<Longrightarrow> fmlookup am cur = None \<Longrightarrow>
     cur \<notin> set (snd (useful_walk am (useful, bots) cur))"
  by (simp add: useful_walk_gone)

lemma useful_walk_dom:
  "useful \<subseteq> fmdom' am \<Longrightarrow> fst (useful_walk am (useful, bots) cur) \<subseteq> fmdom' am"
proof (induction useful cur rule: useful_walk_induct4 [where am = am])
  case (seen useful cur) then show ?case by (simp add: useful_walk_seen)
next
  case (gone useful cur) then show ?case by (simp add: useful_walk_gone)
next
  case (root useful cur m) then show ?case by (simp add: useful_walk_root fmdom'I)
next
  case (step useful cur m r)
  have "useful_walk am (useful, bots) cur = useful_walk am (insert cur useful, bots) r"
    using step.hyps by (rule useful_walk_step)
  moreover have "insert cur useful \<subseteq> fmdom' am"
    using step.prems step.hyps by (simp add: fmdom'I)
  ultimately show ?case using step.IH by simp
qed

subsection \<open>All walks of one pass\<close>

lemma useful_fold_invariant:
  assumes "parent_closed am (fst s)" and "fst s \<subseteq> useful_spec am B"
    and "fst s \<subseteq> fmdom' am" and "set xs \<subseteq> set B"
  shows "parent_closed am (fst (foldl (useful_walk am) s xs))
       \<and> fst (foldl (useful_walk am) s xs) \<subseteq> useful_spec am B
       \<and> fst (foldl (useful_walk am) s xs) \<subseteq> fmdom' am"
  using assms
proof (induction xs arbitrary: s)
  case Nil
  then show ?case by simp
next
  case (Cons x xs)
  obtain U L where s: "s = (U, L)" by (cases s)
  let ?s1 = "useful_walk am (U, L) x"
  have x: "x \<in> set B" using Cons.prems(4) by simp
  have "parent_closed am (fst ?s1)"
    using Cons.prems(1) by (simp add: s useful_walk_closed)
  moreover have "fst ?s1 \<subseteq> useful_spec am B"
  proof (rule useful_walk_sound)
    show "U \<subseteq> useful_spec am B" using Cons.prems(2) by (simp add: s)
    show "\<And>m. fmlookup am x = Some m \<Longrightarrow> x \<in> useful_spec am B"
      using x by (rule useful_spec.own)
  qed
  moreover have "fst ?s1 \<subseteq> fmdom' am"
    using Cons.prems(3) by (simp add: s useful_walk_dom)
  moreover have "set xs \<subseteq> set B" using Cons.prems(4) by simp
  ultimately show ?case using Cons.IH [of ?s1] by (simp add: s)
qed

lemma useful_fold_mono: "fst s \<subseteq> fst (foldl (useful_walk am) s xs)"
proof (induction xs arbitrary: s)
  case Nil
  show ?case by simp
next
  case (Cons x xs)
  obtain U L where s: "s = (U, L)" by (cases s)
  have "U \<subseteq> fst (useful_walk am (U, L) x)" by (rule useful_walk_mono)
  also have "\<dots> \<subseteq> fst (foldl (useful_walk am) (useful_walk am (U, L) x) xs)" by (rule Cons.IH)
  finally show ?case by (simp add: s)
qed

lemma useful_fold_starts:
  "x \<in> set xs \<Longrightarrow> fmlookup am x = Some m \<Longrightarrow> x \<in> fst (foldl (useful_walk am) s xs)"
proof (induction xs arbitrary: s)
  case Nil
  then show ?case by simp
next
  case (Cons y ys)
  obtain U L where s: "s = (U, L)" by (cases s)
  show ?case
  proof (cases "x = y")
    case True
    have "x \<in> fst (useful_walk am (U, L) x)"
      using Cons.prems(2) by (rule useful_walk_start)
    then show ?thesis using useful_fold_mono [of "useful_walk am (U, L) x" am ys] True
      by (auto simp: s)
  next
    case False
    with Cons.prems have "x \<in> set ys" by simp
    then show ?thesis using Cons.IH Cons.prems(2) by (simp add: s)
  qed
qed

lemma useful_fold_bots_subset: "set (snd (foldl (useful_walk am) s xs)) \<subseteq> set (snd s)"
proof (induction xs arbitrary: s)
  case Nil
  show ?case by simp
next
  case (Cons x xs)
  obtain U L where s: "s = (U, L)" by (cases s)
  have "set (snd (foldl (useful_walk am) (useful_walk am (U, L) x) xs))
          \<subseteq> set (snd (useful_walk am (U, L) x))" by (rule Cons.IH)
  also have "\<dots> \<subseteq> set L" by (rule useful_walk_bots_subset)
  finally show ?case by (simp add: s)
qed

lemma useful_fold_bots_kept:
  "filter (\<lambda>b. b \<in> fmdom' am) (snd (foldl (useful_walk am) s xs))
     = filter (\<lambda>b. b \<in> fmdom' am) (snd s)"
proof (induction xs arbitrary: s)
  case Nil
  show ?case by simp
next
  case (Cons x xs)
  obtain U L where s: "s = (U, L)" by (cases s)
  show ?case by (simp add: s Cons.IH useful_walk_bots_kept)
qed

lemma useful_fold_bots_gone:
  assumes "fst s \<subseteq> fmdom' am" and "x \<in> set xs" and "fmlookup am x = None"
  shows "x \<notin> set (snd (foldl (useful_walk am) s xs))"
  using assms
proof (induction xs arbitrary: s)
  case Nil
  then show ?case by simp
next
  case (Cons y ys)
  obtain U L where s: "s = (U, L)" by (cases s)
  have dom1: "fst (useful_walk am (U, L) y) \<subseteq> fmdom' am"
    using Cons.prems(1) by (simp add: s useful_walk_dom)
  show ?case
  proof (cases "x = y")
    case True
    have "x \<notin> U" using Cons.prems(1,3) by (auto simp: s fmlookup_dom'_iff)
    then have "x \<notin> set (snd (useful_walk am (U, L) x))"
      using Cons.prems(3) by (rule useful_walk_bots_start)
    then show ?thesis
      using useful_fold_bots_subset [of am "useful_walk am (U, L) x" ys] True
      by (auto simp: s)
  next
    case False
    with Cons.prems have "x \<in> set ys" by simp
    then show ?thesis using Cons.IH [OF dom1 _ Cons.prems(3)] by (simp add: s)
  qed
qed

lemma parent_closed_empty: "parent_closed am {}"
  by (simp add: parent_closed_def)

lemma useful_walks_useful: "fst (useful_walks am bots) = useful_spec am bots"
proof
  show "fst (useful_walks am bots) \<subseteq> useful_spec am bots"
    using useful_fold_invariant [of am "({}, bots)" bots "rev bots"]
    by (simp add: useful_walks_def parent_closed_empty)
next
  have closed: "parent_closed am (fst (useful_walks am bots))"
    using useful_fold_invariant [of am "({}, bots)" bots "rev bots"]
    by (simp add: useful_walks_def parent_closed_empty)
  show "useful_spec am bots \<subseteq> fst (useful_walks am bots)"
  proof
    fix x assume "x \<in> useful_spec am bots"
    then show "x \<in> fst (useful_walks am bots)"
    proof (induction rule: useful_spec.induct)
      case (own b m)
      then show ?case unfolding useful_walks_def
        by (intro useful_fold_starts) simp_all
    next
      case (parent x m r m')
      with closed show ?case unfolding parent_closed_def by blast
    qed
  qed
qed

lemma useful_walks_bots:
  "snd (useful_walks am bots) = filter (\<lambda>b. b \<in> fmdom' am) bots"
proof -
  let ?L = "snd (useful_walks am bots)"
  have sub: "set ?L \<subseteq> set bots"
    using useful_fold_bots_subset [of am "({}, bots)" "rev bots"] by (simp add: useful_walks_def)
  have "b \<in> fmdom' am" if "b \<in> set ?L" for b
  proof (rule ccontr)
    assume "b \<notin> fmdom' am"
    then have "fmlookup am b = None" by (simp add: fmlookup_dom'_iff)
    moreover have "b \<in> set (rev bots)" using sub that by auto
    ultimately have "b \<notin> set ?L"
      unfolding useful_walks_def by (intro useful_fold_bots_gone) simp_all
    with that show False by simp
  qed
  then have "filter (\<lambda>b. b \<in> fmdom' am) ?L = ?L" by (simp add: filter_id_conv)
  moreover have "filter (\<lambda>b. b \<in> fmdom' am) ?L = filter (\<lambda>b. b \<in> fmdom' am) bots"
    unfolding useful_walks_def using useful_fold_bots_kept [of am "({}, bots)" "rev bots"] by simp
  ultimately show ?thesis by simp
qed

subsection \<open>Retention\<close>

lemma forDeletion_member:
  "messageId |\<in>| forDeletion am usefulMessages now \<longleftrightarrow>
     (\<exists>message. fmlookup am messageId = Some message
        \<and> time message + lifetime_for usefulMessages messageId < now)"
  by (auto simp: forDeletion_def fmlookup_dom_iff split: option.splits)

lemma cleanMessages_pass_lookup:
  "fmlookup (allMessages (cleanMessages_pass now st)) messageId =
     (case fmlookup (allMessages st) messageId of
        None \<Rightarrow> None
      | Some message \<Rightarrow>
          if time message + lifetime_for (fst (useful_walks (allMessages st) (thisBotMessages st)))
               messageId < now
          then None else Some message)"
proof (cases "allMessages st = fmempty")
  case True
  then show ?thesis by (simp add: cleanMessages_pass_def)
next
  case False
  obtain U L where w: "useful_walks (allMessages st) (thisBotMessages st) = (U, L)"
    by (cases "useful_walks (allMessages st) (thisBotMessages st)")
  show ?thesis
    using False by (simp add: cleanMessages_pass_def w forDeletion_member split: option.splits)
qed

text \<open>
  Claim C9. In every pass, the set the memoised walks mark is exactly the useful set (the
  ids reached by walking \<open>referenceMessageId\<close> backward from the own ids), and a record
  is gone afterwards exactly when \<open>now - time\<close> exceeds its lifetime: seven days for a
  useful id, twenty-four hours otherwise. A record that stays is the record that was
  stored.
\<close>

theorem cleanMessages_pass_retention:
  "fst (useful_walks (allMessages st) (thisBotMessages st))
     = useful_spec (allMessages st) (thisBotMessages st)
   \<and> fmlookup (allMessages (cleanMessages_pass now st)) messageId =
     (case fmlookup (allMessages st) messageId of
        None \<Rightarrow> None
      | Some message \<Rightarrow>
          if now - time message >
               (if messageId \<in> useful_spec (allMessages st) (thisBotMessages st)
                then 7 * 24 * 3600 * 1000 else 24 * 3600 * 1000)
          then None else Some message)"
proof -
  have less: "(t + l < now) = (now - t > l)" for t l :: int by auto
  show ?thesis
    by (simp add: cleanMessages_pass_lookup useful_walks_useful lifetime_for_def less
        usefulMessagesLifetime_def unusefulMessagesLifetime_def split: option.splits)
qed

lemma example_walks:
  "useful_walks (allMessages example_store) (thisBotMessages example_store)
     = ({''1'', ''2''}, [''2''])"
  by (simp add: useful_walks_def example_store_def example_record_def useful_walk.simps insert_commute)

text \<open>
  On the example store, a day and two seconds after message 1: the unrelated message 3 has
  outlived its day and goes, the referenced message 1 stays; a millisecond past seven days
  message 1 goes as well, while message 2, one second younger, stays.
\<close>

theorem cleanMessages_pass_retention_witness:
  "useful_spec (allMessages example_store) (thisBotMessages example_store) = {''1'', ''2''}
   \<and> fmlookup (allMessages (cleanMessages_pass 86402000 example_store)) ''1''
       = Some (example_record ''1'' None 0)
   \<and> fmlookup (allMessages (cleanMessages_pass 86402000 example_store)) ''3'' = None
   \<and> fmlookup (allMessages (cleanMessages_pass 604800001 example_store)) ''1'' = None
   \<and> fmlookup (allMessages (cleanMessages_pass 604800001 example_store)) ''2''
       = Some (example_record ''2'' (Some ''1'') 1000)"
proof -
  have u: "useful_spec (allMessages example_store) (thisBotMessages example_store) = {''1'', ''2''}"
    using cleanMessages_pass_retention [of example_store 0 "''1''"] by (simp add: example_walks)
  have l: "fmlookup (allMessages example_store) ''1'' = Some (example_record ''1'' None 0)"
    "fmlookup (allMessages example_store) ''2'' = Some (example_record ''2'' (Some ''1'') 1000)"
    "fmlookup (allMessages example_store) ''3'' = Some (example_record ''3'' None 1000)"
    by (simp_all add: example_store_def)
  have t: "time (example_record i r t) = t" for i r t by (simp add: example_record_def)
  show ?thesis
    using cleanMessages_pass_retention [of example_store 86402000 "''1''"]
      cleanMessages_pass_retention [of example_store 86402000 "''3''"]
      cleanMessages_pass_retention [of example_store 604800001 "''1''"]
      cleanMessages_pass_retention [of example_store 604800001 "''2''"]
    by (simp add: u l t)
qed

text \<open>
  Claim C10, as amended. A pass that finds \<open>allMessages\<close> non-empty removes from
  \<open>thisBotMessages\<close> exactly the own ids that have no record (as the pass begins), keeps
  the others in their order, and leaves every surviving record as it was.
\<close>

theorem cleanMessages_pass_own_set:
  assumes "allMessages st \<noteq> fmempty"
  shows "thisBotMessages (cleanMessages_pass now st)
           = filter (\<lambda>b. b \<in> fmdom' (allMessages st)) (thisBotMessages st)
       \<and> (\<forall>messageId message.
             fmlookup (allMessages (cleanMessages_pass now st)) messageId = Some message
               \<longrightarrow> fmlookup (allMessages st) messageId = Some message)"
proof -
  obtain U L where w: "useful_walks (allMessages st) (thisBotMessages st) = (U, L)"
    by (cases "useful_walks (allMessages st) (thisBotMessages st)")
  have "L = filter (\<lambda>b. b \<in> fmdom' (allMessages st)) (thisBotMessages st)"
    using useful_walks_bots [of "allMessages st" "thisBotMessages st"] by (simp add: w)
  then have "thisBotMessages (cleanMessages_pass now st)
           = filter (\<lambda>b. b \<in> fmdom' (allMessages st)) (thisBotMessages st)"
    using assms by (simp add: cleanMessages_pass_def w)
  moreover have "fmlookup (allMessages st) messageId = Some message"
    if "fmlookup (allMessages (cleanMessages_pass now st)) messageId = Some message"
    for messageId message
    using that by (simp add: cleanMessages_pass_lookup split: option.splits if_splits)
  ultimately show ?thesis by blast
qed

theorem cleanMessages_pass_own_set_witness:
  "allMessages example_store \<noteq> fmempty
   \<and> thisBotMessages (cleanMessages_pass 86402000 example_store) = [''2'']
   \<and> fmlookup (allMessages example_store) ''9'' = None"
proof -
  have ne: "allMessages example_store \<noteq> fmempty"
  proof
    assume "allMessages example_store = fmempty"
    then have "fmlookup (allMessages example_store) ''1'' = fmlookup fmempty ''1''" by simp
    then show False by (simp add: example_store_def)
  qed
  have dom: "fmdom' (allMessages example_store) = {''1'', ''2'', ''3''}"
    by (simp add: example_store_def)
  show ?thesis
    using ne cleanMessages_pass_own_set [OF ne, of 86402000]
    by (simp add: dom) (simp add: example_store_def)
qed

text \<open>
  Claim C10 as stated fails on an empty \<open>allMessages\<close>: the pass takes the
  \<open>continue\<close> of line 398 and the own id 9, whose record is absent, stays in the set.
\<close>

theorem cleanMessages_pass_empty_keeps_own_ids:
  "fmlookup (allMessages \<lparr> allMessages = fmempty, thisBotMessages = [''9''] \<rparr>) ''9'' = None
   \<and> ''9'' \<in> set (thisBotMessages
        (cleanMessages_pass 86402000 \<lparr> allMessages = fmempty, thisBotMessages = [''9''] \<rparr>))"
  by (simp add: cleanMessages_pass_def)

section \<open>The rate-limited handler: proofs\<close>

lemma consume_Denied_unchanged:
  assumes "consume rl key now = (Denied, rl')"
  shows "rl' = rl"
proof -
  let ?b = "current_bucket rl key now"
  from assms have z: "pointsRemaining ?b = 0" and r: "rl' = rl(key \<mapsto> ?b)"
    by (auto simp: consume_def Let_def split: if_splits)
  from z have "rl key = Some ?b"
    by (auto simp: current_bucket_def RATE_LIMIT_POINTS_def split: option.splits if_splits)
  with r show ?thesis by (simp add: fun_upd_idem)
qed

subsection \<open>Over-long input\<close>

text \<open>
  Claim C4, as amended. For a message of a non-bot author, handled while not shutting
  down, whose \<open>content.length\<close> is 3000 or more: \<open>rateLimiter.consume\<close> runs first,
  and when it allows the message the only call made is the reply with the length warning.
  The state afterwards differs from the state before in the consumed point and that one
  call: no loading message, no interval, no cache entry, no call of \<open>generateResponse\<close>;
  and the outcome is the same for any \<open>isTranslatableText\<close>, which is not consulted.
\<close>

theorem handleMessage_A_too_long:
  assumes "\<not> needShutdown_A st" and "\<not> author_bot m" and "3000 \<le> length (content m)"
    and "consume (rateLimiter_A st) (author_id m) now = (Allowed, rl)"
  shows "snd (handleMessage_A e now m st)
           = st\<lparr> rateLimiter_A := rl,
                 calls_A := calls_A st @ [Reply (message_id m) LENGTH_WARNING_MESSAGE] \<rparr>
       \<and> handleMessage_A (e\<lparr> isTranslatableText := f \<rparr>) now m st = handleMessage_A e now m st"
  using assms
  by (simp add: handleMessage_A_def MAX_MESSAGE_LENGTH_def reply_A_def split: outcome.splits)

lemma example_consume:
  "consume Map.empty ''u1'' 0 = (Allowed, [''u1'' \<mapsto> \<lparr> pointsRemaining = 4, windowStart = 0 \<rparr>])"
  by (simp add: consume_def current_bucket_def RATE_LIMIT_POINTS_def)

text \<open>
  A message of exactly 3000 code units from a new author: one point of five is consumed
  and the warning is the only call.
\<close>

theorem handleMessage_A_too_long_witness:
  "\<not> needShutdown_A initial_A \<and> \<not> author_bot example_message \<and> length long_text = 3000
   \<and> snd (handleMessage_A example_env 0 (example_message\<lparr> content := long_text \<rparr>) initial_A)
     = initial_A\<lparr> rateLimiter_A := [''u1'' \<mapsto> \<lparr> pointsRemaining = 4, windowStart = 0 \<rparr>],
                 calls_A := [Reply ''500'' LENGTH_WARNING_MESSAGE] \<rparr>"
  using handleMessage_A_too_long [of initial_A "example_message\<lparr> content := long_text \<rparr>" 0
      "[''u1'' \<mapsto> \<lparr> pointsRemaining = 4, windowStart = 0 \<rparr>]" example_env "\<lambda>s. True"]
  by (simp add: initial_A_def example_message_def long_text_def example_consume)

text \<open>
  Claim C4 as stated fails: the over-long message costs its author a rate-limit point
  before the warning is sent (four of five points remain afterwards), and with no point
  left the same message gets no warning at all.
\<close>

theorem warning_after_rate_limit:
  "length (content (example_message\<lparr> content := long_text \<rparr>)) = 3000
   \<and> rateLimiter_A initial_A ''u1'' = None
   \<and> rateLimiter_A (snd (handleMessage_A example_env 0
         (example_message\<lparr> content := long_text \<rparr>) initial_A)) ''u1''
       = Some \<lparr> pointsRemaining = 4, windowStart = 0 \<rparr>
   \<and> calls_A (snd (handleMessage_A example_env 0 (example_message\<lparr> content := long_text \<rparr>)
         (initial_A\<lparr> rateLimiter_A := [''u1'' \<mapsto> \<lparr> pointsRemaining = 0, windowStart = 0 \<rparr>] \<rparr>)))
       = []"
  by (simp add: handleMessage_A_def initial_A_def example_message_def long_text_def
      consume_def current_bucket_def RATE_LIMIT_POINTS_def RATE_LIMIT_DURATION_def
      MAX_MESSAGE_LENGTH_def reply_A_def example_env_def)

subsection \<open>The sixth message of a window\<close>

lemma reply_A_frame:
  "reply_A e target s st = (r, st') \<Longrightarrow>
     rateLimiter_A st' = rateLimiter_A st \<and> needShutdown_A st' = needShutdown_A st"
  by (auto simp: reply_A_def)

lemma edit_A_frame:
  "edit_A e target s st = (r, st') \<Longrightarrow>
     rateLimiter_A st' = rateLimiter_A st \<and> needShutdown_A st' = needShutdown_A st"
  by (auto simp: edit_A_def)

lemma send_rest_A_frame:
  "send_rest_A e m p responseLeft st = (r, st') \<Longrightarrow>
     rateLimiter_A st' = rateLimiter_A st \<and> needShutdown_A st' = needShutdown_A st"
proof (induction e m p responseLeft st rule: send_rest_A.induct)
  case (1 e m prevMessage responseLeft st)
  show ?case
  proof (cases "responseLeft = []")
    case True
    with "1.prems" show ?thesis by simp
  next
    case False
    obtain o1 st1 where rp:
      "reply_A e (message_id m) (take MAX_DISCORD_MESSAGE_LENGTH responseLeft) st = (o1, st1)"
      by (cases "reply_A e (message_id m) (take MAX_DISCORD_MESSAGE_LENGTH responseLeft) st")
    note f1 = reply_A_frame [OF rp]
    show ?thesis
    proof (cases o1)
      case Throws
      with False rp "1.prems" f1 show ?thesis by simp
    next
      case (Returns newMessage)
      let ?st2 = "st1\<lparr> thisBotMessages_A := set_add newMessage (thisBotMessages_A st1) \<rparr>"
      have "send_rest_A e m newMessage (drop MAX_DISCORD_MESSAGE_LENGTH responseLeft) ?st2 = (r, st')"
        using False rp Returns "1.prems" by simp
      then have "rateLimiter_A st' = rateLimiter_A ?st2 \<and> needShutdown_A st' = needShutdown_A ?st2"
        using "1.IH" [OF False rp [symmetric] Returns] by blast
      with f1 show ?thesis by simp
    qed
  qed
qed

declare send_rest_A.simps [simp del]

lemma on_error_A_frame:
  "on_error_A e l a st = (r, st') \<Longrightarrow>
     rateLimiter_A st' = rateLimiter_A st \<and> needShutdown_A st' = needShutdown_A st"
  by (auto simp: on_error_A_def edit_A_def clearInterval_A_def split: if_splits bool.splits)

lemma respond_A_frame:
  assumes "respond_A e m l a st = (r, st')"
  shows "rateLimiter_A st' = rateLimiter_A st \<and> needShutdown_A st' = needShutdown_A st"
proof -
  obtain g st1 where g: "generate_A e m st = (g, st1)" by (cases "generate_A e m st")
  then have f1: "rateLimiter_A st1 = rateLimiter_A st \<and> needShutdown_A st1 = needShutdown_A st"
    by (auto simp: generate_A_def)
  show ?thesis
  proof (cases g)
    case Throws
    with assms g have "on_error_A e l a st1 = (r, st')" by (simp add: respond_A_def)
    from on_error_A_frame [OF this] f1 show ?thesis by simp
  next
    case (Returns response)
    let ?c = "clearInterval_A a st1"
    have fc: "rateLimiter_A ?c = rateLimiter_A st \<and> needShutdown_A ?c = needShutdown_A st"
      using f1 by (simp add: clearInterval_A_def)
    show ?thesis
    proof (cases "length response \<le> MAX_DISCORD_MESSAGE_LENGTH")
      case True
      obtain ok st2 where ed: "edit_A e l response ?c = (ok, st2)"
        by (cases "edit_A e l response ?c")
      note f2 = edit_A_frame [OF ed]
      show ?thesis
      proof (cases ok)
        case True
        with assms g Returns \<open>length response \<le> MAX_DISCORD_MESSAGE_LENGTH\<close> ed
        have "st' = st2\<lparr> thisBotMessages_A := set_add l (thisBotMessages_A st2) \<rparr>"
          by (simp add: respond_A_def)
        with f2 fc show ?thesis by simp
      next
        case False
        with assms g Returns \<open>length response \<le> MAX_DISCORD_MESSAGE_LENGTH\<close> ed
        have "on_error_A e l a st2 = (r, st')" by (simp add: respond_A_def)
        from on_error_A_frame [OF this] f2 fc show ?thesis by simp
      qed
    next
      case long: False
      obtain ok st2 where ed: "edit_A e l (take MAX_DISCORD_MESSAGE_LENGTH response) ?c = (ok, st2)"
        by (cases "edit_A e l (take MAX_DISCORD_MESSAGE_LENGTH response) ?c")
      note f2 = edit_A_frame [OF ed]
      show ?thesis
      proof (cases ok)
        case False
        with assms g Returns long ed
        have "on_error_A e l a st2 = (r, st')" by (simp add: respond_A_def)
        from on_error_A_frame [OF this] f2 fc show ?thesis by simp
      next
        case True
        obtain c st3 where sr:
          "send_rest_A e m l (drop MAX_DISCORD_MESSAGE_LENGTH response) st2 = (c, st3)"
          by (cases "send_rest_A e m l (drop MAX_DISCORD_MESSAGE_LENGTH response) st2")
        note f3 = send_rest_A_frame [OF sr]
        show ?thesis
        proof (cases c)
          case Resolved
          with assms g Returns long ed True sr have "st' = st3" by (simp add: respond_A_def)
          with f3 f2 fc show ?thesis by simp
        next
          case Rejected
          with assms g Returns long ed True sr
          have "on_error_A e l a st3 = (r, st')" by (simp add: respond_A_def)
          from on_error_A_frame [OF this] f3 f2 fc show ?thesis by simp
        qed
      qed
    qed
  qed
qed

lemma start_loading_A_frame:
  "start_loading_A e m st = (r, st') \<Longrightarrow>
     rateLimiter_A st' = rateLimiter_A st \<and> needShutdown_A st' = needShutdown_A st"
  by (auto simp: start_loading_A_def reply_A_def setInterval_A_def split: outcome.splits)

lemma accept_A_frame:
  assumes "accept_A e m st = (r, st')"
  shows "rateLimiter_A st' = rateLimiter_A st \<and> needShutdown_A st' = needShutdown_A st"
proof -
  let ?st1 = "st\<lparr> usernames_A := (usernames_A st)(author_id m \<mapsto> author_username m),
                    messageCache_A := lru_set 500 (message_id m)
                      \<lparr> msg_id = message_id m, referenceMessageId = reference m,
                        time = createdTimestamp m, authorName = author_username m,
                        msg_text = content m \<rparr> (messageCache_A st) \<rparr>"
  obtain o1 st2 where sl: "start_loading_A e m ?st1 = (o1, st2)"
    by (cases "start_loading_A e m ?st1")
  from start_loading_A_frame [OF sl]
  have f2: "rateLimiter_A st2 = rateLimiter_A st \<and> needShutdown_A st2 = needShutdown_A st" by simp
  show ?thesis
  proof (cases o1)
    case None
    with assms sl f2 show ?thesis
      by (auto simp: accept_A_def Let_def split: if_splits)
  next
    case (Some la)
    obtain l a where la: "la = (l, a)" by (cases la)
    have "respond_A e m l a st2 = (r, st')"
      using assms sl Some la by (simp add: accept_A_def Let_def)
    from respond_A_frame [OF this] f2 show ?thesis by simp
  qed
qed

lemma handleMessage_A_limiter:
  assumes "\<not> needShutdown_A st" and "\<not> author_bot m"
  shows "rateLimiter_A (snd (handleMessage_A e now m st))
           = snd (consume (rateLimiter_A st) (author_id m) now)
       \<and> \<not> needShutdown_A (snd (handleMessage_A e now m st))"
proof -
  obtain v rl where c: "consume (rateLimiter_A st) (author_id m) now = (v, rl)"
    by (cases "consume (rateLimiter_A st) (author_id m) now")
  let ?st1 = "st\<lparr> rateLimiter_A := rl \<rparr>"
  show ?thesis
  proof (cases v)
    case Denied
    with assms c show ?thesis by (simp add: handleMessage_A_def)
  next
    case Allowed
    show ?thesis
    proof (cases "MAX_MESSAGE_LENGTH \<le> length (content m)")
      case True
      with assms c Allowed show ?thesis
        by (simp add: handleMessage_A_def reply_A_def split: outcome.splits)
    next
      case short: False
      show ?thesis
      proof (cases "isTranslatableText e (content m)")
        case False
        with assms c Allowed short show ?thesis by (simp add: handleMessage_A_def)
      next
        case True
        obtain r st' where a: "accept_A e m ?st1 = (r, st')" by (cases "accept_A e m ?st1")
        from accept_A_frame [OF a] assms
        have "rateLimiter_A st' = rl \<and> \<not> needShutdown_A st'" by simp
        with assms c Allowed short True a show ?thesis by (simp add: handleMessage_A_def)
      qed
    qed
  qed
qed

lemma consume_in_window:
  assumes "rl a = Some \<lparr> pointsRemaining = p, windowStart = w \<rparr>" and "now < w + 1000"
  shows "snd (consume rl a now) a = Some \<lparr> pointsRemaining = p - 1, windowStart = w \<rparr>"
  using assms by (simp add: consume_def current_bucket_def RATE_LIMIT_DURATION_def Let_def)

lemma consume_opens_window:
  assumes "case rl a of None \<Rightarrow> True | Some b \<Rightarrow> windowStart b + 1000 \<le> now"
  shows "snd (consume rl a now) a = Some \<lparr> pointsRemaining = 4, windowStart = now \<rparr>"
  using assms
  by (simp add: consume_def current_bucket_def RATE_LIMIT_DURATION_def RATE_LIMIT_POINTS_def Let_def
      split: option.splits)

lemma handle_all_A_bucket:
  assumes "\<not> needShutdown_A st"
    and "rateLimiter_A st a = Some \<lparr> pointsRemaining = p, windowStart = w \<rparr>"
    and "\<forall>(t, m) \<in> set batch. author_id m = a \<and> \<not> author_bot m \<and> t < w + 1000"
  shows "rateLimiter_A (handle_all_A e batch st) a
           = Some \<lparr> pointsRemaining = p - length batch, windowStart = w \<rparr>
       \<and> \<not> needShutdown_A (handle_all_A e batch st)"
  using assms
proof (induction batch arbitrary: st p)
  case Nil
  then show ?case by simp
next
  case (Cons x batch)
  obtain t m where x: "x = (t, m)" by (cases x)
  let ?st1 = "snd (handleMessage_A e t m st)"
  from Cons.prems(3) have m: "author_id m = a" "\<not> author_bot m" "t < w + 1000"
    by (simp_all add: x)
  from handleMessage_A_limiter [OF Cons.prems(1) m(2), of e t]
  have l: "rateLimiter_A ?st1 = snd (consume (rateLimiter_A st) a t)" "\<not> needShutdown_A ?st1"
    by (simp_all add: m(1))
  have b: "rateLimiter_A ?st1 a = Some \<lparr> pointsRemaining = p - 1, windowStart = w \<rparr>"
    unfolding l(1) using Cons.prems(2) m(3) by (rule consume_in_window)
  have "rateLimiter_A (handle_all_A e batch ?st1) a
           = Some \<lparr> pointsRemaining = (p - 1) - length batch, windowStart = w \<rparr>
       \<and> \<not> needShutdown_A (handle_all_A e batch ?st1)"
    using Cons.prems(3) by (intro Cons.IH l(2) b) simp
  then show ?case by (simp add: x)
qed

text \<open>
  Claim C7. Six messages of one non-bot author \<open>a\<close>, handled in turn while not shutting
  down, all within one second of the first, which opens the author's window: handling the
  sixth resolves and leaves the whole state as the fifth left it. No call is made (no
  reply, no loading message), and the cache, the own-message set and the limiter are
  untouched.
\<close>

theorem sixth_message_dropped:
  assumes "\<not> needShutdown_A st"
    and "length rest = 4"
    and "\<forall>(t, m) \<in> set ((t1, m1) # rest @ [(now, m6)]).
           author_id m = a \<and> \<not> author_bot m \<and> t < t1 + 1000"
    and "case rateLimiter_A st a of None \<Rightarrow> True | Some b \<Rightarrow> windowStart b + 1000 \<le> t1"
  shows "handleMessage_A e now m6 (handle_all_A e ((t1, m1) # rest) st)
           = (Resolved, handle_all_A e ((t1, m1) # rest) st)"
proof -
  let ?st1 = "snd (handleMessage_A e t1 m1 st)"
  let ?st5 = "handle_all_A e rest ?st1"
  have m1: "author_id m1 = a" "\<not> author_bot m1" and m6: "author_id m6 = a" "\<not> author_bot m6"
    "now < t1 + 1000"
    using assms(3) by simp_all
  from handleMessage_A_limiter [OF assms(1) m1(2), of e t1]
  have l: "rateLimiter_A ?st1 = snd (consume (rateLimiter_A st) a t1)" "\<not> needShutdown_A ?st1"
    by (simp_all add: m1(1))
  have b1: "rateLimiter_A ?st1 a = Some \<lparr> pointsRemaining = 4, windowStart = t1 \<rparr>"
    unfolding l(1) using assms(4) by (rule consume_opens_window)
  have "rateLimiter_A ?st5 a = Some \<lparr> pointsRemaining = 4 - length rest, windowStart = t1 \<rparr>
       \<and> \<not> needShutdown_A ?st5"
    using assms(3) by (intro handle_all_A_bucket l(2) b1) simp
  then have b5: "rateLimiter_A ?st5 a = Some \<lparr> pointsRemaining = 0, windowStart = t1 \<rparr>"
    and n5: "\<not> needShutdown_A ?st5"
    using assms(2) by simp_all
  have "consume (rateLimiter_A ?st5) a now = (Denied, (rateLimiter_A ?st5))"
    using b5 m6(3)
    by (simp add: consume_def current_bucket_def RATE_LIMIT_DURATION_def Let_def fun_upd_idem)
  then have "handleMessage_A e now m6 ?st5 = (Resolved, ?st5)"
    using n5 m6 by (simp add: handleMessage_A_def)
  then show ?thesis by simp
qed

subsection \<open>Examples evaluated\<close>

lemma take_drop_replicate_1951:
  "take 1950 (replicate 1951 x) = replicate 1950 x" "drop 1950 (replicate 1951 x) = [x]"
  by (simp_all add: min_def)

text \<open>
  Six messages of author \<open>u1\<close> at 0, 100, ..., 500 ms.
\<close>

theorem sixth_message_dropped_witness:
  "\<not> needShutdown_A initial_A \<and> length example_batch = 4
   \<and> rateLimiter_A initial_A ''u1'' = None
   \<and> handleMessage_A example_env 500 example_message
        (handle_all_A example_env ((0, example_message) # example_batch) initial_A)
       = (Resolved, handle_all_A example_env ((0, example_message) # example_batch) initial_A)"
  using sixth_message_dropped [of initial_A example_batch 0 example_message 500 example_message
      "''u1''" example_env]
  by (simp add: initial_A_def example_batch_def example_message_def)

text \<open>
  The five messages before it were all answered: four calls each.
\<close>

lemma first_five_answered:
  "length (calls_A (handle_all_A example_env ((0, example_message) # example_batch) initial_A)) = 20"
  by (simp add: handleMessage_A_def example_env_def example_message_def initial_A_def example_batch_def
      consume_def current_bucket_def RATE_LIMIT_POINTS_def MAX_MESSAGE_LENGTH_def RATE_LIMIT_DURATION_def
      accept_A_def start_loading_A_def reply_A_def setInterval_A_def respond_A_def generate_A_def
      MAX_DISCORD_MESSAGE_LENGTH_def clearInterval_A_def edit_A_def send_rest_A.simps
      ascii_def take_drop_replicate_1951 set_add_def lru_set_def)

subsection \<open>Delivery in chunks\<close>

text \<open>
  When the gateway accepts every write, a response longer than 1950 code units is
  delivered as its chunks in order: the loading message is edited to the first, and each
  further chunk is a reply to the triggering message.
\<close>

declare splitForDelivery.simps [simp del]

lemma splitForDelivery_concat: "concat (splitForDelivery s) = s"
proof (induction s rule: splitForDelivery.induct)
  case (1 s)
  show ?case
  proof (cases "s = []")
    case True
    then show ?thesis by (subst splitForDelivery.simps) simp
  next
    case False
    with "1.IH" show ?thesis by (subst splitForDelivery.simps) simp
  qed
qed

lemma splitForDelivery_sizes:
  "c \<in> set (splitForDelivery s) \<Longrightarrow> c \<noteq> [] \<and> length c \<le> MAX_DISCORD_MESSAGE_LENGTH"
proof (induction s rule: splitForDelivery.induct)
  case (1 s)
  show ?case
  proof (cases "s = []")
    case True
    with "1.prems" show ?thesis by (subst (asm) splitForDelivery.simps) simp
  next
    case False
    from "1.prems" have "c = take MAX_DISCORD_MESSAGE_LENGTH s
        \<or> c \<in> set (splitForDelivery (drop MAX_DISCORD_MESSAGE_LENGTH s))"
      using False by (subst (asm) splitForDelivery.simps) simp
    then show ?thesis
    proof
      assume "c = take MAX_DISCORD_MESSAGE_LENGTH s"
      with False show ?thesis by (simp add: MAX_DISCORD_MESSAGE_LENGTH_def)
    next
      assume "c \<in> set (splitForDelivery (drop MAX_DISCORD_MESSAGE_LENGTH s))"
      with "1.IH" False show ?thesis by simp
    qed
  qed
qed

lemma send_rest_A_calls:
  assumes "\<And>n. reply_result e n \<noteq> Throws"
  shows "\<exists>st'. send_rest_A e m p responseLeft st = (Resolved, st')
       \<and> calls_A st' = calls_A st @ map (Reply (message_id m)) (splitForDelivery responseLeft)"
  using assms
proof (induction e m p responseLeft st rule: send_rest_A.induct)
  case (1 e m prevMessage responseLeft st)
  show ?case
  proof (cases "responseLeft = []")
    case True
    then show ?thesis
      by (subst send_rest_A.simps, subst splitForDelivery.simps) simp
  next
    case False
    let ?s = "take MAX_DISCORD_MESSAGE_LENGTH responseLeft"
    let ?st1 = "st\<lparr> calls_A := calls_A st @ [Reply (message_id m) ?s] \<rparr>"
    from "1.prems" obtain newMessage where
      n: "reply_result e (length (calls_A st)) = Returns newMessage"
      by (cases "reply_result e (length (calls_A st))") auto
    then have rp: "reply_A e (message_id m) ?s st = (Returns newMessage, ?st1)"
      by (simp add: reply_A_def)
    let ?st2 = "?st1\<lparr> thisBotMessages_A := set_add newMessage (thisBotMessages_A ?st1) \<rparr>"
    from "1.IH" [OF False rp [symmetric] refl "1.prems"]
    obtain st' where
      r: "send_rest_A e m newMessage (drop MAX_DISCORD_MESSAGE_LENGTH responseLeft) ?st2
            = (Resolved, st')"
      and c: "calls_A st' = calls_A ?st2 @ map (Reply (message_id m))
            (splitForDelivery (drop MAX_DISCORD_MESSAGE_LENGTH responseLeft))"
      by blast
    have "send_rest_A e m prevMessage responseLeft st = (Resolved, st')"
      using False rp r by (subst send_rest_A.simps) simp
    moreover have "splitForDelivery responseLeft
        = ?s # splitForDelivery (drop MAX_DISCORD_MESSAGE_LENGTH responseLeft)"
      using False by (subst splitForDelivery.simps) simp
    then have "calls_A st' = calls_A st @ map (Reply (message_id m)) (splitForDelivery responseLeft)"
      using c by simp
    ultimately show ?thesis by blast
  qed
qed

lemma respond_A_long_calls:
  assumes "\<And>n. reply_result e n \<noteq> Throws" and "\<And>n. edit_result e n"
    and "generate_result e (length (calls_A st)) = Returns response"
    and "MAX_DISCORD_MESSAGE_LENGTH < length response"
  shows "\<exists>st'. respond_A e m l a st = (Resolved, st')
       \<and> calls_A st' = calls_A st @ Generate (message_id m) (channelId m)
             # Edit l (hd (splitForDelivery response))
             # map (Reply (message_id m)) (tl (splitForDelivery response))"
proof -
  let ?st1 = "st\<lparr> calls_A := calls_A st @ [Generate (message_id m) (channelId m)] \<rparr>"
  let ?st2 = "(clearInterval_A a ?st1)\<lparr> calls_A := calls_A ?st1
        @ [Edit l (take MAX_DISCORD_MESSAGE_LENGTH response)] \<rparr>"
  have g: "generate_A e m st = (Returns response, ?st1)"
    using assms(3) by (simp add: generate_A_def)
  have ed: "edit_A e l (take MAX_DISCORD_MESSAGE_LENGTH response) (clearInterval_A a ?st1)
              = (True, ?st2)"
    using assms(2) by (simp add: edit_A_def clearInterval_A_def)
  from send_rest_A_calls [OF assms(1), of m l "drop MAX_DISCORD_MESSAGE_LENGTH response" ?st2]
  obtain st' where
    r: "send_rest_A e m l (drop MAX_DISCORD_MESSAGE_LENGTH response) ?st2 = (Resolved, st')"
    and c: "calls_A st' = calls_A ?st2 @ map (Reply (message_id m))
          (splitForDelivery (drop MAX_DISCORD_MESSAGE_LENGTH response))"
    by blast
  have ne: "response \<noteq> []" using assms(4) by auto
  have sp: "splitForDelivery response = take MAX_DISCORD_MESSAGE_LENGTH response
      # splitForDelivery (drop MAX_DISCORD_MESSAGE_LENGTH response)"
    using ne by (subst splitForDelivery.simps) simp
  have "respond_A e m l a st = (Resolved, st')"
    using g ed r assms(4) by (simp add: respond_A_def)
  moreover have "calls_A st' = calls_A st @ Generate (message_id m) (channelId m)
             # Edit l (hd (splitForDelivery response))
             # map (Reply (message_id m)) (tl (splitForDelivery response))"
    using c by (simp add: sp clearInterval_A_def)
  ultimately show ?thesis by blast
qed

text \<open>
  Claim C6 at a response of 1951 code units. The loading message (id 9) is edited to the
  first 1950; the remaining code unit is sent with \<open>message.reply\<close>, that is as a reply
  to the triggering message 500 and not to the previous chunk 9.
\<close>

theorem chunked_delivery_replies_to_original:
  "calls_A (snd (handleMessage_A example_env 0 example_message initial_A))
     = [Reply ''500'' (LOADING_FRAMES ! 0), Generate ''500'' ''c1'',
        Edit ''9'' (replicate 1950 0x62), Reply ''500'' [0x62]]"
  by (simp add: handleMessage_A_def example_env_def example_message_def initial_A_def
      consume_def current_bucket_def RATE_LIMIT_POINTS_def MAX_MESSAGE_LENGTH_def
      accept_A_def start_loading_A_def reply_A_def setInterval_A_def respond_A_def generate_A_def
      MAX_DISCORD_MESSAGE_LENGTH_def clearInterval_A_def edit_A_def send_rest_A.simps
      ascii_def take_drop_replicate_1951 set_add_def lru_set_def)

subsection \<open>The animation interval\<close>

text \<open>
  Every path through \<open>handleMessage\<close> that starts the interval of line 105 also clears
  it: the running intervals are the same before and after.
\<close>

lemma send_rest_A_intervals:
  "send_rest_A e m p responseLeft st = (r, st') \<Longrightarrow> intervals_A st' = intervals_A st"
proof (induction e m p responseLeft st rule: send_rest_A.induct)
  case (1 e m prevMessage responseLeft st)
  show ?case
  proof (cases "responseLeft = []")
    case True
    with "1.prems" show ?thesis by (simp add: send_rest_A.simps)
  next
    case False
    obtain o1 st1 where rp:
      "reply_A e (message_id m) (take MAX_DISCORD_MESSAGE_LENGTH responseLeft) st = (o1, st1)"
      by (cases "reply_A e (message_id m) (take MAX_DISCORD_MESSAGE_LENGTH responseLeft) st")
    then have f1: "intervals_A st1 = intervals_A st" by (auto simp: reply_A_def)
    show ?thesis
    proof (cases o1)
      case Throws
      with False rp "1.prems" f1 show ?thesis by (simp add: send_rest_A.simps)
    next
      case (Returns newMessage)
      let ?st2 = "st1\<lparr> thisBotMessages_A := set_add newMessage (thisBotMessages_A st1) \<rparr>"
      have "send_rest_A e m newMessage (drop MAX_DISCORD_MESSAGE_LENGTH responseLeft) ?st2 = (r, st')"
        using False rp Returns "1.prems" by (simp add: send_rest_A.simps)
      then have "intervals_A st' = intervals_A ?st2"
        using "1.IH" [OF False rp [symmetric] Returns] by blast
      with f1 show ?thesis by simp
    qed
  qed
qed

lemma on_error_A_intervals:
  "on_error_A e l a st = (r, st') \<Longrightarrow> intervals_A st' = removeAll a (intervals_A st)"
  by (auto simp: on_error_A_def edit_A_def clearInterval_A_def split: bool.splits)

lemma respond_A_intervals:
  assumes "respond_A e m l a st = (r, st')"
  shows "intervals_A st' = removeAll a (intervals_A st)"
proof -
  obtain g st1 where g: "generate_A e m st = (g, st1)" by (cases "generate_A e m st")
  then have f1: "intervals_A st1 = intervals_A st" by (auto simp: generate_A_def)
  show ?thesis
  proof (cases g)
    case Throws
    with assms g have "on_error_A e l a st1 = (r, st')" by (simp add: respond_A_def)
    from on_error_A_intervals [OF this] f1 show ?thesis by simp
  next
    case (Returns response)
    let ?s = "if length response \<le> MAX_DISCORD_MESSAGE_LENGTH then response
              else take MAX_DISCORD_MESSAGE_LENGTH response"
    obtain ok st2 where ed: "edit_A e l ?s (clearInterval_A a st1) = (ok, st2)"
      by (cases "edit_A e l ?s (clearInterval_A a st1)")
    then have f2: "intervals_A st2 = removeAll a (intervals_A st)"
      using f1 by (auto simp: edit_A_def clearInterval_A_def)
    show ?thesis
    proof (cases ok)
      case False
      with assms g Returns ed have "on_error_A e l a st2 = (r, st')"
        by (auto simp: respond_A_def split: if_splits)
      from on_error_A_intervals [OF this] f2 show ?thesis by simp
    next
      case True
      show ?thesis
      proof (cases "length response \<le> MAX_DISCORD_MESSAGE_LENGTH")
        case short: True
        with assms g Returns ed True f2 show ?thesis by (auto simp: respond_A_def)
      next
        case long: False
        obtain c st3 where sr:
          "send_rest_A e m l (drop MAX_DISCORD_MESSAGE_LENGTH response) st2 = (c, st3)"
          by (cases "send_rest_A e m l (drop MAX_DISCORD_MESSAGE_LENGTH response) st2")
        note f3 = send_rest_A_intervals [OF sr]
        show ?thesis
        proof (cases c)
          case Resolved
          with assms g Returns long ed True sr have "st' = st3" by (simp add: respond_A_def)
          with f3 f2 show ?thesis by simp
        next
          case Rejected
          with assms g Returns long ed True sr have "on_error_A e l a st3 = (r, st')"
            by (simp add: respond_A_def)
          from on_error_A_intervals [OF this] f3 f2 show ?thesis by simp
        qed
      qed
    qed
  qed
qed

lemma handleMessage_A_clears_interval:
  assumes "handleMessage_A e now m st = (c, st')" and "fresh_handles_A st"
  shows "intervals_A st' = intervals_A st"
proof (cases "needShutdown_A st \<or> author_bot m
    \<or> fst (consume (rateLimiter_A st) (author_id m) now) = Denied
    \<or> MAX_MESSAGE_LENGTH \<le> length (content m) \<or> \<not> isTranslatableText e (content m)")
  case True
  with assms(1) show ?thesis
    by (auto simp: handleMessage_A_def reply_A_def
        split: if_splits prod.splits verdict.splits outcome.splits)
next
  case False
  obtain v rl where cn: "consume (rateLimiter_A st) (author_id m) now = (v, rl)"
    by (cases "consume (rateLimiter_A st) (author_id m) now")
  with False have v: "v = Allowed" by (cases v) auto
  let ?st0 = "st\<lparr> rateLimiter_A := rl \<rparr>"
  let ?st1 = "?st0\<lparr> usernames_A := (usernames_A ?st0)(author_id m \<mapsto> author_username m),
                    messageCache_A := lru_set 500 (message_id m)
                      \<lparr> msg_id = message_id m, referenceMessageId = reference m,
                        time = createdTimestamp m, authorName = author_username m,
                        msg_text = content m \<rparr> (messageCache_A ?st0) \<rparr>"
  from assms(1) False cn v have a: "accept_A e m ?st0 = (c, st')"
    by (simp add: handleMessage_A_def)
  obtain o1 st2 where rp: "reply_A e (message_id m) (LOADING_FRAMES ! 0) ?st1 = (o1, st2)"
    by (cases "reply_A e (message_id m) (LOADING_FRAMES ! 0) ?st1")
  then have f2: "intervals_A st2 = intervals_A st" "handles_A st2 = handles_A st"
    by (auto simp: reply_A_def)
  show ?thesis
  proof (cases o1)
    case Throws
    with a rp f2 show ?thesis
      by (auto simp: accept_A_def start_loading_A_def Let_def split: if_splits)
  next
    case (Returns loadingMessage)
    let ?st3 = "st2\<lparr> intervals_A := intervals_A st2 @ [handles_A st2],
                      handles_A := Suc (handles_A st2) \<rparr>"
    from a rp Returns have "respond_A e m loadingMessage (handles_A st2) ?st3 = (c, st')"
      by (simp add: accept_A_def start_loading_A_def Let_def setInterval_A_def)
    from respond_A_intervals [OF this] f2 assms(2) show ?thesis
      by (auto simp: fresh_handles_A_def)
  qed
qed

section \<open>The reply chain: proofs\<close>

subsection \<open>A cycle\<close>

lemma map_of_move_to_front:
  "map_of c k = Some v \<Longrightarrow> map_of ((k, v) # filter (\<lambda>p. fst p \<noteq> k) c) = map_of c"
proof (rule ext)
  fix x assume kv: "map_of c k = Some v"
  have "map_of (filter (\<lambda>p. fst p \<noteq> k) c) x = map_of c x" if "x \<noteq> k"
    using that by (induction c) auto
  with kv show "map_of ((k, v) # filter (\<lambda>p. fst p \<noteq> k) c) x = map_of c x" by auto
qed

lemma resolve_B_cached:
  assumes "map_of (messageCache_B st) i = Some c"
  shows "\<exists>st1. resolve_B e i st = (Found c, st1)
           \<and> map_of (messageCache_B st1) = map_of (messageCache_B st)"
  using assms map_of_move_to_front [OF assms]
  by (simp add: resolve_B_def lru_has_def read_B_def lru_get_def)

lemma in_cycle_step:
  assumes "in_cycle st i"
  shows "\<exists>c st1 r. resolve_B e i st = (Found c, st1) \<and> next_reference c = Some r \<and> in_cycle st1 r"
proof -
  from assms have "i = ''1'' \<or> i = ''2''" by (simp add: in_cycle_def)
  then show ?thesis
  proof
    assume i: "i = ''1''"
    let ?c = "\<lparr> cached_text = ascii ''a'', cached_reference = Some ''2'', cached_author = ascii ''ann'' \<rparr>"
    have "map_of (messageCache_B st) i = Some ?c"
      using assms i by (simp add: in_cycle_def cyclic_cache_def)
    from resolve_B_cached [OF this, of e] obtain st1 where
      "resolve_B e i st = (Found ?c, st1)" "map_of (messageCache_B st1) = map_of (messageCache_B st)"
      by blast
    moreover have "next_reference ?c = Some ''2''" by (simp add: next_reference_def)
    ultimately show ?thesis using assms by (auto simp: in_cycle_def)
  next
    assume i: "i = ''2''"
    let ?c = "\<lparr> cached_text = ascii ''b'', cached_reference = Some ''1'', cached_author = ascii ''bob'' \<rparr>"
    have "map_of (messageCache_B st) i = Some ?c"
      using assms i by (simp add: in_cycle_def cyclic_cache_def)
    from resolve_B_cached [OF this, of e] obtain st1 where
      "resolve_B e i st = (Found ?c, st1)" "map_of (messageCache_B st1) = map_of (messageCache_B st)"
      by blast
    moreover have "next_reference ?c = Some ''1''" by (simp add: next_reference_def)
    ultimately show ?thesis using assms by (auto simp: in_cycle_def)
  qed
qed

lemma walk_B_leaves_cycle:
  assumes "walk_B e st dialog i = Some y"
  shows "\<not> in_cycle st i"
proof (rule walk_B.raw_induct [where P = "\<lambda>e st dialog i y. \<not> in_cycle st i", OF _ assms])
  fix walk e st dialog i y
  assume IH: "\<And>e st dialog i y. walk e st dialog i = Some y \<Longrightarrow> \<not> in_cycle st i"
    and body: "(case resolve_B e i st of
        (DeadEnd, st1) \<Rightarrow> Some (Returns dialog, st1)
      | (Found cached, st1) \<Rightarrow>
          (case next_reference cached of
             None \<Rightarrow>
               Some (Returns (dialog @ [turn_for (thisBotMessages_B st1) i cached]), st1)
           | Some r \<Rightarrow>
               walk e st1 (dialog @ [turn_for (thisBotMessages_B st1) i cached]) r)
      | (Vanished, st1) \<Rightarrow> Some (Throws, st1)) = Some y"
  show "\<not> in_cycle st i"
  proof
    assume "in_cycle st i"
    from in_cycle_step [OF this, of e] obtain c st1 r where
      r: "resolve_B e i st = (Found c, st1)" "next_reference c = Some r" "in_cycle st1 r"
      by blast
    with body have "walk e st1 (dialog @ [turn_for (thisBotMessages_B st1) i c]) r = Some y"
      by simp
    from IH [OF this] r(3) show False by simp
  qed
qed

lemma walk_B_cycle_diverges: "in_cycle st i \<Longrightarrow> walk_B e st dialog i = None"
  using walk_B_leaves_cycle [of e st dialog i] by (cases "walk_B e st dialog i") auto

text \<open>
  Claim C1 as stated fails. With messages 1 and 2 cached as replies to each other,
  \<open>generateResponse\<close> for message 1 does not return: the loop of lines 337--347 keeps
  no record of the ids it has seen and has no bound on the number of rounds.
\<close>

theorem generateResponse_B_cycle_never_returns:
  "generateResponse_B example_env example_cfg ''1'' ''c1''
     (initial_B\<lparr> messageCache_B := cyclic_cache \<rparr>) = None"
proof -
  have "in_cycle (initial_B\<lparr> messageCache_B := cyclic_cache,
                   calls_B := calls_B initial_B @ [FetchChannel ''c1''] \<rparr>) ''1''"
    by (simp add: in_cycle_def)
  then have "walk_B example_env (initial_B\<lparr> messageCache_B := cyclic_cache,
                   calls_B := calls_B initial_B @ [FetchChannel ''c1''] \<rparr>) [] ''1'' = None"
    by (rule walk_B_cycle_diverges)
  then show ?thesis
    by (simp add: generateResponse_B_def dialog_B_def example_env_def)
qed

subsection \<open>A chain that ends\<close>

text \<open>
  In this cache, without expiry, \<open>get\<close> right after \<open>has\<close> or \<open>set\<close> always
  finds the entry: line 344 does not throw.
\<close>

lemma resolve_B_never_vanished: "fst (resolve_B e i st) \<noteq> Vanished"
  by (auto simp: resolve_B_def read_B_def lru_has_def lru_get_def lru_set_def
      split: option.splits)

lemma resolve_B_own_set:
  "resolve_B e i st = (r, st1) \<Longrightarrow> thisBotMessages_B st1 = thisBotMessages_B st"
  by (auto simp: resolve_B_def read_B_def split: if_splits option.splits prod.splits)

lemma visits_own_set:
  "visits e st i chain st' \<Longrightarrow> thisBotMessages_B st' = thisBotMessages_B st"
  by (induction rule: visits.induct) (auto dest: resolve_B_own_set)

lemma walk_B_visits:
  "visits e st i chain st' \<Longrightarrow>
     walk_B e st dialog i
       = Some (Returns (dialog @ map (\<lambda>(i, c). turn_for (thisBotMessages_B st) i c) chain), st')"
proof (induction arbitrary: dialog rule: visits.induct)
  case (dead e i st st1)
  then show ?case by (subst walk_B.simps) simp
next
  case (root e i st c st1)
  then show ?case by (subst walk_B.simps) (simp add: resolve_B_own_set)
next
  case (link e i st c st1 r chain st2)
  have "thisBotMessages_B st1 = thisBotMessages_B st"
    using link.hyps(1) by (rule resolve_B_own_set)
  with link show ?case by (subst walk_B.simps) simp
qed

lemma dialog_B_visits:
  assumes "visits e st leaf chain st'"
  shows "dialog_B e cfg leaf st
           = Some (Returns (rev (map (\<lambda>(i, c). turn_for (thisBotMessages_B st) i c) chain)
                              @ [system_turn cfg]), st')"
  using walk_B_visits [OF assms, of "[]"] by (simp add: dialog_B_def rev_map)

lemma example_visits:
  "visits example_gateway chain_state ''3'' example_chain chain_state_after"
  unfolding example_chain_def
  apply (rule visits.link [where r = "''2''"
      and ?st1.0 = "chain_state\<lparr> messageCache_B := [example_chain ! 0, example_chain ! 2] \<rparr>"])
    apply (simp add: resolve_B_def read_B_def lru_has_def lru_get_def chain_state_def
      example_chain_def initial_B_def)
   apply (simp add: next_reference_def)
  apply (rule visits.link [where r = "''1''"
      and ?st1.0 = "chain_state\<lparr> messageCache_B := [example_chain ! 1, example_chain ! 0, example_chain ! 2],
                      calls_B := [FetchMessage ''2''] \<rparr>"])
    apply (simp add: resolve_B_def read_B_def lru_has_def lru_get_def lru_set_def chain_state_def
      example_chain_def initial_B_def example_gateway_def example_parent_def)
   apply (simp add: next_reference_def)
  apply (rule visits.root)
   apply (simp add: resolve_B_def read_B_def lru_has_def lru_get_def chain_state_def
      chain_state_after_def example_chain_def initial_B_def)
  apply (simp add: next_reference_def)
  done

text \<open>
  A chain whose records are all in the cache is visited to its root: reading the cache
  only reorders it.
\<close>

lemma visits_cached_chain:
  assumes "linked chain"
    and "\<forall>(i, c) \<in> set chain. map_of (messageCache_B st) i = Some c"
  shows "\<exists>st'. visits e st (fst (hd chain)) chain st'"
  using assms
proof (induction chain arbitrary: st rule: linked.induct)
  case 1
  then show ?case by simp
next
  case (2 i c)
  then have "map_of (messageCache_B st) i = Some c" by simp
  from resolve_B_cached [OF this, of e] obtain st1 where "resolve_B e i st = (Found c, st1)"
    by blast
  with 2 show ?case by (auto intro: visits.root)
next
  case (3 i c j d rest)
  then have "map_of (messageCache_B st) i = Some c" by simp
  from resolve_B_cached [OF this, of e] obtain st1 where
    r: "resolve_B e i st = (Found c, st1)"
    and m: "map_of (messageCache_B st1) = map_of (messageCache_B st)"
    by blast
  have "\<forall>(i, c) \<in> set ((j, d) # rest). map_of (messageCache_B st1) i = Some c"
    using "3.prems"(2) by (simp add: m)
  with "3.IH" "3.prems"(1) obtain st' where "visits e st1 j ((j, d) # rest) st'"
    by fastforce
  with r "3.prems"(1) have "visits e st i ((i, c) # (j, d) # rest) st'"
    by (auto intro: visits.link)
  then show ?case by auto
qed

lemma linked_ends_at_root: "linked chain \<Longrightarrow> ends_at_root chain"
  by (induction chain rule: linked.induct) (auto simp: ends_at_root_def)



text \<open>
  Claim C1, as amended. The walk keeps no set of visited ids and has no maximum length.
  On a reply chain that reaches a root or an id that does not resolve, it returns; when
  no id occurs twice on that chain, the turns it has appended are one per id.
\<close>

theorem dialog_B_finite_chain:
  assumes "visits e st leaf chain st'" and "distinct (map fst chain)"
  shows "dialog_B e cfg leaf st
           = Some (Returns (rev (map (\<lambda>(i, c). turn_for (thisBotMessages_B st) i c) chain)
                              @ [system_turn cfg]), st')
       \<and> length (map (\<lambda>(i, c). turn_for (thisBotMessages_B st) i c) chain)
           = card (fst ` set chain)"
proof -
  have "card (fst ` set chain) = length chain"
    using distinct_card [OF assms(2)] by simp
  then show ?thesis using dialog_B_visits [OF assms(1), of cfg] by simp
qed

text \<open>
  The chain of three has three different ids and yields three turns.
\<close>

theorem dialog_B_finite_chain_witness:
  "distinct (map fst example_chain)
   \<and> map_option fst (dialog_B example_gateway example_cfg ''3'' chain_state)
       = Some (Returns
           [\<lparr> turn_role = User, turn_content = ascii ''danke'', turn_name = Some (ascii ''ann'') \<rparr>,
            \<lparr> turn_role = Assistant, turn_content = ascii ''thanks'',
              turn_name = Some (ascii ''OnionBot'') \<rparr>,
            \<lparr> turn_role = User, turn_content = ascii ''merci'', turn_name = Some (ascii ''ann'') \<rparr>,
            \<lparr> turn_role = System, turn_content = ascii ''Translate.'', turn_name = None \<rparr>])
   \<and> card (fst ` set example_chain) = 3"
proof -
  have d: "distinct (map fst example_chain)" by (simp add: example_chain_def)
  show ?thesis
    using d dialog_B_finite_chain [OF example_visits d, of example_cfg]
    by (simp add: example_chain_def chain_state_def initial_B_def turn_for_def system_turn_def
        example_cfg_def)
qed

section \<open>The queue: proofs\<close>

lemma next_B_inv:
  assumes "running_B w = []" and "isProcessingQueue_B w"
  shows "queue_inv (next_B w)"
    and "started_B (next_B w) @ messageQueue_B (next_B w) = started_B w @ messageQueue_B w"
  using assms by (auto simp: next_B_def queue_inv_def split: list.splits)

lemma next_B_processing:
  "isProcessingQueue_B w \<Longrightarrow> messageQueue_B w \<noteq> [] \<Longrightarrow> isProcessingQueue_B (next_B w)"
  by (auto simp: next_B_def split: list.splits)

lemma enqueueMessage_B_inv:
  assumes "queue_inv w"
  shows "queue_inv (enqueueMessage_B m w)"
    and "started_B (enqueueMessage_B m w) @ messageQueue_B (enqueueMessage_B m w)
           = started_B w @ messageQueue_B w @ (if author_bot m then [] else [m])"
proof -
  show "queue_inv (enqueueMessage_B m w)"
  proof (cases "author_bot m \<or> isProcessingQueue_B w")
    case True
    with assms show ?thesis by (auto simp: enqueueMessage_B_def queue_inv_def)
  next
    case False
    with assms have idle: "messageQueue_B w = []" "running_B w = []"
      by (auto simp: queue_inv_def)
    have "queue_inv (next_B (w\<lparr> messageQueue_B := messageQueue_B w @ [m], isProcessingQueue_B := True \<rparr>))"
      by (rule next_B_inv) (simp_all add: idle)
    with False show ?thesis by (simp add: enqueueMessage_B_def processQueue_B_def)
  qed
  show "started_B (enqueueMessage_B m w) @ messageQueue_B (enqueueMessage_B m w)
           = started_B w @ messageQueue_B w @ (if author_bot m then [] else [m])"
  proof (cases "author_bot m \<or> isProcessingQueue_B w")
    case True
    then show ?thesis by (auto simp: enqueueMessage_B_def)
  next
    case False
    with assms have idle: "messageQueue_B w = []" "running_B w = []"
      by (auto simp: queue_inv_def)
    have "started_B (next_B (w\<lparr> messageQueue_B := messageQueue_B w @ [m], isProcessingQueue_B := True \<rparr>))
            @ messageQueue_B (next_B (w\<lparr> messageQueue_B := messageQueue_B w @ [m], isProcessingQueue_B := True \<rparr>))
          = started_B w @ messageQueue_B w @ [m]"
      by (subst next_B_inv(2)) (simp_all add: idle)
    with False show ?thesis by (simp add: enqueueMessage_B_def processQueue_B_def)
  qed
qed

lemma settle_B_inv:
  assumes "queue_inv w" and "settle_B e cfg w = Some w1"
  shows "queue_inv w1"
    and "started_B w1 @ messageQueue_B w1 = started_B w @ messageQueue_B w"
proof -
  show "queue_inv w1 "
  proof (cases "running_B w")
    case Nil
    with assms show ?thesis by (simp add: settle_B_def)
  next
    case (Cons m others)
    with assms(1) have others: "others = []" and p: "isProcessingQueue_B w"
      by (auto simp: queue_inv_def)
    from assms(2) Cons obtain c st where h: "handleMessage_B e cfg m (bot_B w) = Some (c, st)"
      by (auto simp: settle_B_def split: option.splits)
    show ?thesis
    proof (cases c)
      case Resolved
      with assms(2) Cons h others have "w1 = next_B (w\<lparr> bot_B := st, running_B := [] \<rparr>)"
        by (simp add: settle_B_def)
      then show ?thesis using p by (simp add: next_B_inv(1))
    next
      case Rejected
      with assms(2) Cons h others have "w1 = w\<lparr> bot_B := st, running_B := [] \<rparr>"
        by (simp add: settle_B_def)
      with p show ?thesis by (simp add: queue_inv_def)
    qed
  qed
  show "started_B w1 @ messageQueue_B w1 = started_B w @ messageQueue_B w"
  proof (cases "running_B w")
    case Nil
    with assms show ?thesis by (simp add: settle_B_def)
  next
    case (Cons m others)
    with assms(1) have others: "others = []" and p: "isProcessingQueue_B w"
      by (auto simp: queue_inv_def)
    from assms(2) Cons obtain c st where h: "handleMessage_B e cfg m (bot_B w) = Some (c, st)"
      by (auto simp: settle_B_def split: option.splits)
    show ?thesis
    proof (cases c)
      case Resolved
      with assms(2) Cons h others have "w1 = next_B (w\<lparr> bot_B := st, running_B := [] \<rparr>)"
        by (simp add: settle_B_def)
      then show ?thesis using p by (simp add: next_B_inv(2))
    next
      case Rejected
      with assms(2) Cons h others have "w1 = w\<lparr> bot_B := st, running_B := [] \<rparr>"
        by (simp add: settle_B_def)
      then show ?thesis by simp
    qed
  qed
qed

lemma step_B_inv:
  assumes "queue_inv w" and "step_B e cfg ev w = Some w1"
  shows "queue_inv w1"
    and "started_B w1 @ messageQueue_B w1 = started_B w @ messageQueue_B w @ queued_by [ev]"
proof -
  show "queue_inv w1"
  proof (cases ev)
    case (Created m)
    with assms show ?thesis by (auto simp: enqueueMessage_B_inv(1))
  next
    case (Updated m)
    with assms show ?thesis by (auto simp: enqueueMessage_B_inv(1) split: if_splits)
  next
    case Settled
    with assms show ?thesis by (auto dest: settle_B_inv(1))
  qed
  show "started_B w1 @ messageQueue_B w1 = started_B w @ messageQueue_B w @ queued_by [ev]"
  proof (cases ev)
    case (Created m)
    with assms show ?thesis by (auto simp: enqueueMessage_B_inv(2))
  next
    case (Updated m)
    with assms show ?thesis by (auto simp: enqueueMessage_B_inv(2) split: if_splits)
  next
    case Settled
    with assms show ?thesis by (auto dest: settle_B_inv(2))
  qed
qed

lemma queued_by_Cons: "queued_by (ev # evs) = queued_by [ev] @ queued_by evs"
  by (cases ev) simp_all

lemma run_B_inv:
  assumes "queue_inv w" and "run_B e cfg evs w = Some w1"
  shows "queue_inv w1
       \<and> started_B w1 @ messageQueue_B w1 = started_B w @ messageQueue_B w @ queued_by evs"
  using assms
proof (induction evs arbitrary: w)
  case Nil
  then show ?case by simp
next
  case (Cons ev evs)
  from Cons.prems(2) obtain w' where s: "step_B e cfg ev w = Some w'"
    and r: "run_B e cfg evs w' = Some w1"
    by (auto split: option.splits)
  note i = step_B_inv [OF Cons.prems(1) s]
  from Cons.IH [OF i(1) r] i(2) show ?case
    by (simp add: queued_by_Cons [of ev evs])
qed

lemma reply_targets_append [simp]:
  "reply_targets (xs @ ys) = reply_targets xs @ reply_targets ys"
  by (induction xs rule: reply_targets.induct) simp_all

lemma posts_for_same: "calls_B st' = calls_B st \<Longrightarrow> posts_for m st st'"
  unfolding posts_for_def by (intro exI [of _ "[]"] exI [of _ 0]) simp

lemma posts_for_trans:
  assumes "posts_for m st st1" and "posts_for m st1 st2"
  shows "posts_for m st st2"
proof -
  from assms obtain cs k cs' k' where
    "calls_B st1 = calls_B st @ cs" "reply_targets cs = replicate k (message_id m)"
    "calls_B st2 = calls_B st1 @ cs'" "reply_targets cs' = replicate k' (message_id m)"
    unfolding posts_for_def by blast
  then have "calls_B st2 = calls_B st @ (cs @ cs')
      \<and> reply_targets (cs @ cs') = replicate (k + k') (message_id m)"
    by (simp add: replicate_add)
  then show ?thesis unfolding posts_for_def by blast
qed

lemma posts_for_other:
  "calls_B st' = calls_B st @ [c] \<Longrightarrow> reply_targets [c] = [] \<Longrightarrow> posts_for m st st'"
  unfolding posts_for_def by (intro exI [of _ "[c]"] exI [of _ 0]) simp

lemma posts_for_reply: "reply_B e (message_id m) s st = (r, st') \<Longrightarrow> posts_for m st st'"
  unfolding posts_for_def reply_B_def
  by (intro exI [of _ "[Reply (message_id m) s]"] exI [of _ 1]) auto

lemma posts_for_edit: "edit_B e target s st = (r, st') \<Longrightarrow> posts_for m st st'"
  by (rule posts_for_other [of _ _ "Edit target s"]) (auto simp: edit_B_def)

lemma posts_for_delete: "posts_for m st (delete_B target st)"
  by (rule posts_for_other [of _ _ "Delete target"]) (auto simp: delete_B_def)

lemma posts_for_fetch_existing:
  "fetch_existing_B e m' st = (x, st') \<Longrightarrow> posts_for m st st'"
proof (cases "originalToReplyMap_B st (message_id m')")
  case None
  assume "fetch_existing_B e m' st = (x, st')"
  with None show ?thesis by (auto simp: fetch_existing_B_def intro: posts_for_same)
next
  case (Some old)
  assume "fetch_existing_B e m' st = (x, st')"
  with Some show ?thesis
    by (intro posts_for_other [of _ _ "FetchMessage old"]) (auto simp: fetch_existing_B_def)
qed

lemma posts_for_resolve: "resolve_B e i st = (r, st') \<Longrightarrow> posts_for m st st'"
proof (cases "lru_has i (messageCache_B st)")
  case True
  assume "resolve_B e i st = (r, st')"
  with True show ?thesis
    by (intro posts_for_same) (auto simp: resolve_B_def read_B_def split: prod.splits option.splits)
next
  case False
  assume "resolve_B e i st = (r, st')"
  with False show ?thesis
    by (intro posts_for_other [of _ _ "FetchMessage i"])
       (auto simp: resolve_B_def read_B_def split: prod.splits option.splits)
qed

lemma posts_for_walk:
  assumes "walk_B e st dialog i = Some y"
  shows "posts_for m st (snd y)"
proof (rule walk_B.raw_induct [where P = "\<lambda>e st dialog i y. posts_for m st (snd y)", OF _ assms])
  fix walk e st dialog i y
  assume IH: "\<And>e st dialog i y. walk e st dialog i = Some y \<Longrightarrow> posts_for m st (snd y)"
    and body: "(case resolve_B e i st of
        (DeadEnd, st1) \<Rightarrow> Some (Returns dialog, st1)
      | (Found cached, st1) \<Rightarrow>
          (case next_reference cached of
             None \<Rightarrow>
               Some (Returns (dialog @ [turn_for (thisBotMessages_B st1) i cached]), st1)
           | Some r \<Rightarrow>
               walk e st1 (dialog @ [turn_for (thisBotMessages_B st1) i cached]) r)
      | (Vanished, st1) \<Rightarrow> Some (Throws, st1)) = Some y"
  obtain r st1 where res: "resolve_B e i st = (r, st1)" by (cases "resolve_B e i st")
  note f = posts_for_resolve [OF res, of m]
  show "posts_for m st (snd y)"
  proof (cases r)
    case DeadEnd
    with body res f show ?thesis by auto
  next
    case Vanished
    with body res f show ?thesis by auto
  next
    case (Found cached)
    show ?thesis
    proof (cases "next_reference cached")
      case None
      with body res Found f show ?thesis by auto
    next
      case (Some nxt)
      with body res Found
      have "walk e st1 (dialog @ [turn_for (thisBotMessages_B st1) i cached]) nxt = Some y" by simp
      from posts_for_trans [OF f IH [OF this]] show ?thesis .
    qed
  qed
qed

lemma posts_for_generateResponse:
  assumes "generateResponse_B e cfg i ch st = Some (r, st')"
  shows "posts_for m st st'"
proof -
  let ?st0 = "st\<lparr> calls_B := calls_B st @ [FetchChannel ch] \<rparr>"
  have s0: "posts_for m st ?st0"
    by (rule posts_for_other [of _ _ "FetchChannel ch"]) simp_all
  show ?thesis
  proof (cases "channels_fetch e ch")
    case False
    with assms s0 show ?thesis by (auto simp: generateResponse_B_def)
  next
    case True
    with assms obtain d st1 where w: "walk_B e ?st0 [] i = Some (d, st1)"
      by (auto simp: generateResponse_B_def dialog_B_def split: option.splits)
    from posts_for_walk [OF this, of m] have s1: "posts_for m ?st0 st1" by simp
    show ?thesis
    proof (cases d)
      case Throws
      with assms True w have "st' = st1"
        by (simp add: generateResponse_B_def dialog_B_def)
      with s0 s1 show ?thesis by (auto intro: posts_for_trans)
    next
      case (Returns dialog)
      with assms True w have "calls_B st' = calls_B st1 @ [Completion (rev dialog @ [system_turn cfg])]"
        by (auto simp: generateResponse_B_def dialog_B_def)
      then have "posts_for m st1 st'"
        by (rule posts_for_other) simp
      with s0 s1 show ?thesis by (blast intro: posts_for_trans)
    qed
  qed
qed

lemma posts_for_clear:
  "posts_for m st (clearTimeout_B t (clearInterval_B i st))"
  by (rule posts_for_same)
     (simp add: clearTimeout_B_def clearInterval_B_def split: option.splits)

lemma posts_for_fail:
  assumes "fail_B e m hasReply lm li lt st = (c, st')"
  shows "posts_for m st st'"
proof -
  let ?st0 = "clearTimeout_B lt (clearInterval_B li st)"
  note s0 = posts_for_clear [of m st lt li]
  obtain x st1 where f: "(if hasReply then fetch_existing_B e m ?st0 else (None, ?st0)) = (x, st1)"
    by (cases "if hasReply then fetch_existing_B e m ?st0 else (None, ?st0)")
  have s1: "posts_for m ?st0 st1"
    using f by (auto split: if_splits intro: posts_for_fetch_existing posts_for_same)
  have s01: "posts_for m st st1" using s0 s1 by (rule posts_for_trans)
  show ?thesis
  proof (cases x)
    case (Some existing)
    obtain ok st2 where ed: "edit_B e existing ERROR_MESSAGE st1 = (ok, st2)"
      by (cases "edit_B e existing ERROR_MESSAGE st1")
    note s2 = posts_for_trans [OF s01 posts_for_edit [OF ed, of m]]
    from assms f Some ed have "st' = st2 \<or> (\<exists>l. st' = delete_B l st2)"
      by (auto simp: fail_B_def split: bool.splits option.splits)
    with s2 show ?thesis by (auto intro: posts_for_trans posts_for_delete)
  next
    case None
    show ?thesis
    proof (cases lm)
      case (Some l)
      obtain ok st2 where ed: "edit_B e l ERROR_MESSAGE st1 = (ok, st2)"
        by (cases "edit_B e l ERROR_MESSAGE st1")
      from assms f None Some ed have "st' = st2"
        by (auto simp: fail_B_def split: bool.splits)
      with posts_for_trans [OF s01 posts_for_edit [OF ed, of m]] show ?thesis by simp
    next
      case lmNone: None
      obtain r st2 where rp: "reply_B e (message_id m) ERROR_MESSAGE st1 = (r, st2)"
        by (cases "reply_B e (message_id m) ERROR_MESSAGE st1")
      from assms f None lmNone rp have "st' = st2"
        by (auto simp: fail_B_def split: outcome.splits)
      with posts_for_trans [OF s01 posts_for_reply [OF rp]] show ?thesis by simp
    qed
  qed
qed

lemma posts_for_finish:
  assumes "finish_B e cfg m hasReply l i t response st = (c, st')"
  shows "posts_for m st st'"
proof (cases "response = None \<or> response = Some [] \<or> not_translatable cfg (the response)")
  case True
  with assms have "st' = delete_B l st"
    by (auto simp: finish_B_def split: option.splits if_splits)
  then show ?thesis by (simp add: posts_for_delete)
next
  case False
  then obtain r where r: "response = Some r" "r \<noteq> []" "\<not> not_translatable cfg r"
    by (cases response) auto
  obtain x st1 where f: "(if hasReply then fetch_existing_B e m st else (None, st)) = (x, st1)"
    by (cases "if hasReply then fetch_existing_B e m st else (None, st)")
  have s1: "posts_for m st st1"
    using f by (auto split: if_splits intro: posts_for_fetch_existing posts_for_same)
  let ?target = "case x of None \<Rightarrow> l | Some existing \<Rightarrow> existing"
  obtain ok st2 where ed: "edit_B e ?target r st1 = (ok, st2)"
    by (cases "edit_B e ?target r st1")
  note s2 = posts_for_trans [OF s1 posts_for_edit [OF ed, of m]]
  show ?thesis
  proof (cases ok)
    case False
    with assms r f ed have "fail_B e m hasReply (Some l) (Some i) (Some t) st2 = (c, st')"
      by (auto simp: finish_B_def split: option.splits)
    from posts_for_trans [OF s2 posts_for_fail [OF this]] show ?thesis .
  next
    case True
    with assms r f ed have "calls_B st' = calls_B st2 \<or> st' = delete_B l st2"
      by (auto simp: finish_B_def split: option.splits)
    with s2 show ?thesis
      by (auto intro: posts_for_trans posts_for_delete posts_for_same)
  qed
qed

lemma posts_for_start_loading:
  "start_loading_B e m st = (r, st') \<Longrightarrow> posts_for m st st'"
  unfolding posts_for_def start_loading_B_def reply_B_def setInterval_B_def setTimeout_B_def
  by (intro exI [of _ "[Reply (message_id m) (LOADING_FRAMES ! 0)]"] exI [of _ 1])
     (auto split: outcome.splits)

lemma posts_for_try:
  assumes "try_B e cfg m hasReply st = Some (c, st')"
  shows "posts_for m st st'"
proof -
  obtain x st3 where sl: "start_loading_B e m st = (x, st3)" by (cases "start_loading_B e m st")
  note s3 = posts_for_start_loading [OF sl]
  show ?thesis
  proof (cases x)
    case None
    with assms sl have "fail_B e m hasReply None None None st3 = (c, st')"
      by (simp add: try_B_def)
    from posts_for_trans [OF s3 posts_for_fail [OF this]] show ?thesis .
  next
    case (Some lit)
    obtain l i t where lit: "lit = (l, i, t)" by (cases lit)
    from assms sl Some lit obtain r st4 where
      g: "generateResponse_B e cfg (message_id m) (channelId m) st3 = Some (r, st4)"
      by (auto simp: try_B_def split: option.splits)
    note s4 = posts_for_trans [OF s3 posts_for_generateResponse [OF g, of m]]
    show ?thesis
    proof (cases r)
      case Throws
      with assms sl Some lit g
      have "fail_B e m hasReply (Some l) (Some i) (Some t) st4 = (c, st')"
        by (simp add: try_B_def)
      from posts_for_trans [OF s4 posts_for_fail [OF this]] show ?thesis .
    next
      case (Returns response)
      let ?st5 = "clearTimeout_B (Some t) (clearInterval_B (Some i) st4)"
      from assms sl Some lit g Returns
      have "finish_B e cfg m hasReply l i t response ?st5 = (c, st')"
        by (simp add: try_B_def)
      from posts_for_trans [OF posts_for_trans [OF s4 posts_for_clear] posts_for_finish [OF this]]
      show ?thesis .
    qed
  qed
qed

lemma posts_for_handleMessage:
  assumes "handleMessage_B e cfg m st = Some (c, st')"
  shows "posts_for m st st'"
proof (cases "author_bot m
    \<or> (message_id m \<in> set (processedMessages_B st) \<and> originalToReplyMap_B st (message_id m) = None)
    \<or> \<not> (MAX_MESSAGE_LENGTH \<le> length (content m)) \<and> \<not> isTranslatableText e (content m)")
  case True
  with assms have "calls_B st' = calls_B st"
    by (auto simp: handleMessage_B_def split: if_splits)
  then show ?thesis by (rule posts_for_same)
next
  case False
  let ?st0 = "st\<lparr> processedMessages_B := set_add (message_id m) (processedMessages_B st) \<rparr>"
  show ?thesis
  proof (cases "MAX_MESSAGE_LENGTH \<le> length (content m)")
    case True
    obtain r st1 where rp: "reply_B e (message_id m) LENGTH_WARNING_MESSAGE ?st0 = (r, st1)"
      by (cases "reply_B e (message_id m) LENGTH_WARNING_MESSAGE ?st0")
    with assms False True have "st' = st1"
      by (auto simp: handleMessage_B_def split: outcome.splits)
    moreover have "posts_for m st ?st0" by (rule posts_for_same) simp
    ultimately show ?thesis using posts_for_reply [OF rp] by (blast intro: posts_for_trans)
  next
    case short: False
    with assms False have "try_B e cfg m (originalToReplyMap_B st (message_id m) \<noteq> None)
        (prepared_B m st) = Some (c, st')"
      by (auto simp: handleMessage_B_def)
    from posts_for_try [OF this] have "posts_for m (prepared_B m st) st'" .
    moreover have "posts_for m st (prepared_B m st)"
      by (rule posts_for_same) (simp add: prepared_B_def)
    ultimately show ?thesis by (blast intro: posts_for_trans)
  qed
qed

lemma replies_of_more: "length ks \<le> length ms \<Longrightarrow> replies_of ks (ms @ xs) = replies_of ks ms"
  by (simp add: replies_of_def zip_append2)

lemma replies_of_snoc:
  "length ks = length ms \<Longrightarrow>
     replies_of (ks @ [k]) (ms @ [m]) = replies_of ks ms @ replicate k (message_id m)"
  by (simp add: replies_of_def)

lemma next_B_started:
  "running_B w = [] \<Longrightarrow>
     (started_B (next_B w) = started_B w \<and> running_B (next_B w) = [])
     \<or> (\<exists>n. started_B (next_B w) = started_B w @ [n] \<and> running_B (next_B w) = [n])"
  by (auto simp: next_B_def split: list.splits)

lemma next_B_bot: "bot_B (next_B w) = bot_B w"
  by (auto simp: next_B_def split: list.splits)

lemma posted_in_order_next:
  assumes "posted_in_order w0 w" and "running_B w = []"
  shows "posted_in_order w0 (next_B w)"
proof -
  from assms obtain cs ks where c: "calls_B (bot_B w) = calls_B (bot_B w0) @ cs"
    and l: "length ks = length (started_B w)"
    and r: "reply_targets cs = replies_of ks (started_B w)"
    unfolding posted_in_order_def by auto
  from next_B_started [OF assms(2)] show ?thesis
  proof
    assume "started_B (next_B w) = started_B w \<and> running_B (next_B w) = []"
    with c l r show ?thesis unfolding posted_in_order_def
      by (intro exI [of _ cs] exI [of _ ks]) (simp add: next_B_bot)
  next
    assume "\<exists>n. started_B (next_B w) = started_B w @ [n] \<and> running_B (next_B w) = [n]"
    then obtain n where "started_B (next_B w) = started_B w @ [n]" "running_B (next_B w) = [n]"
      by blast
    with c l r show ?thesis unfolding posted_in_order_def
      by (intro exI [of _ cs] exI [of _ ks]) (simp add: next_B_bot replies_of_more)
  qed
qed

lemma enqueueMessage_B_posted:
  assumes "queue_inv w" and "posted_in_order w0 w"
  shows "posted_in_order w0 (enqueueMessage_B m w)"
proof (cases "author_bot m \<or> isProcessingQueue_B w")
  case True
  with assms(2) show ?thesis
    by (auto simp: enqueueMessage_B_def posted_in_order_def)
next
  case False
  with assms(1) have idle: "running_B w = []" by (auto simp: queue_inv_def)
  let ?w1 = "w\<lparr> messageQueue_B := messageQueue_B w @ [m], isProcessingQueue_B := True \<rparr>"
  have "posted_in_order w0 ?w1" using assms(2) by (simp add: posted_in_order_def)
  then have "posted_in_order w0 (next_B ?w1)"
    by (rule posted_in_order_next) (simp add: idle)
  with False show ?thesis by (simp add: enqueueMessage_B_def processQueue_B_def)
qed

lemma settle_B_posted:
  assumes "queue_inv w" and "posted_in_order w0 w" and "settle_B e cfg w = Some w1"
  shows "posted_in_order w0 w1"
proof (cases "running_B w")
  case Nil
  with assms show ?thesis by (simp add: settle_B_def)
next
  case (Cons m others)
  with assms(1) have run: "running_B w = [m]" and last: "m = last (started_B w)"
    by (auto simp: queue_inv_def)
  from assms(2) obtain cs ks where c: "calls_B (bot_B w) = calls_B (bot_B w0) @ cs"
    and l: "length ks + 1 = length (started_B w)"
    and r: "reply_targets cs = replies_of ks (started_B w)"
    unfolding posted_in_order_def using run by auto
  from l have ne: "started_B w \<noteq> []" by auto
  then have st: "started_B w = butlast (started_B w) @ [m]"
    using last by simp
  have lb: "length ks = length (butlast (started_B w))" using l by simp
  from assms(3) run obtain c st' where h: "handleMessage_B e cfg m (bot_B w) = Some (c, st')"
    by (auto simp: settle_B_def split: option.splits)
  from posts_for_handleMessage [OF h] obtain cs' k where
    c': "calls_B st' = calls_B (bot_B w) @ cs'" and r': "reply_targets cs' = replicate k (message_id m)"
    unfolding posts_for_def by blast
  let ?w' = "w\<lparr> bot_B := st', running_B := [] \<rparr>"
  have "replies_of (ks @ [k]) (started_B w) = replies_of ks (started_B w) @ replicate k (message_id m)"
    using replies_of_snoc [OF lb, of k m] replies_of_more [of ks "butlast (started_B w)" "[m]"] lb st
    by simp
  then have p: "posted_in_order w0 ?w'"
    unfolding posted_in_order_def using c c' r r' l
    by (intro exI [of _ "cs @ cs'"] exI [of _ "ks @ [k]"]) simp
  show ?thesis
  proof (cases c)
    case Resolved
    with assms(3) run h have "w1 = next_B ?w'" by (simp add: settle_B_def)
    with posted_in_order_next [OF p] show ?thesis by simp
  next
    case Rejected
    with assms(3) run h have "w1 = ?w'" by (simp add: settle_B_def)
    with p show ?thesis by simp
  qed
qed

lemma step_B_posted:
  assumes "queue_inv w" and "posted_in_order w0 w" and "step_B e cfg ev w = Some w1"
  shows "posted_in_order w0 w1"
proof (cases ev)
  case (Created m)
  with assms show ?thesis by (auto simp: enqueueMessage_B_posted)
next
  case (Updated m)
  with assms show ?thesis by (auto simp: enqueueMessage_B_posted split: if_splits)
next
  case Settled
  with assms show ?thesis by (auto intro: settle_B_posted)
qed

lemma run_B_posted:
  assumes "queue_inv w" and "posted_in_order w0 w" and "run_B e cfg evs w = Some w1"
  shows "posted_in_order w0 w1"
  using assms
proof (induction evs arbitrary: w)
  case Nil
  then show ?case by simp
next
  case (Cons ev evs)
  from Cons.prems(3) obtain w' where s: "step_B e cfg ev w = Some w'"
    and r: "run_B e cfg evs w' = Some w1"
    by (auto split: option.splits)
  from step_B_inv(1) [OF Cons.prems(1) s] step_B_posted [OF Cons.prems(1,2) s] r
  show ?case by (rule Cons.IH)
qed

text \<open>
  Claim C3. From an idle worker, after any events: the messages handed to
  \<open>handleMessage\<close> so far, followed by those still queued, are the messages put into
  the queue in the order of their arrival; at most one \<open>handleMessage\<close> is awaited,
  and it is the one started last, so a handler is only started when the one before it has
  settled. The calls made to the gateway since the start are those of the settled
  handlers, and the replies among them are replies to the queued messages in the order
  of arrival: all replies to the first message, then all replies to the second, and so
  on, up to the last message whose handler has settled.
\<close>

theorem queue_keeps_arrival_order:
  assumes "idle_B w0" and "run_B e cfg evs w0 = Some w"
  shows "started_B w @ messageQueue_B w = queued_by evs
       \<and> length (running_B w) \<le> 1
       \<and> running_B w = (if running_B w = [] then [] else [last (started_B w)])
       \<and> (\<exists>cs ks. calls_B (bot_B w) = calls_B (bot_B w0) @ cs
             \<and> length ks + length (running_B w) = length (started_B w)
             \<and> reply_targets cs = replies_of ks (queued_by evs))"
proof -
  from assms(1) have i: "queue_inv w0" by (simp add: idle_B_def queue_inv_def)
  from assms(1) have "posted_in_order w0 w0"
    unfolding posted_in_order_def
    by (intro exI [of _ "[]"] exI [of _ "[]"]) (simp add: idle_B_def replies_of_def)
  from run_B_posted [OF i this assms(2)] obtain cs ks where
    c: "calls_B (bot_B w) = calls_B (bot_B w0) @ cs"
    and l: "length ks + length (running_B w) = length (started_B w)"
    and r: "reply_targets cs = replies_of ks (started_B w)"
    unfolding posted_in_order_def by blast
  from run_B_inv [OF i assms(2)] assms(1)
  have q: "queue_inv w" and s: "started_B w @ messageQueue_B w = queued_by evs"
    by (simp_all add: idle_B_def)
  have "replies_of ks (queued_by evs) = replies_of ks (started_B w)"
    unfolding s [symmetric] using l by (intro replies_of_more) simp
  with c l r have "\<exists>cs ks. calls_B (bot_B w) = calls_B (bot_B w0) @ cs
             \<and> length ks + length (running_B w) = length (started_B w)
             \<and> reply_targets cs = replies_of ks (queued_by evs)"
    by auto
  with q s show ?thesis by (auto simp: queue_inv_def)
qed

text \<open>
  The definitions that evaluate the handler on a concrete input.
\<close>

lemmas handler_B_defs =
  handleMessage_B_def MAX_MESSAGE_LENGTH_def try_B_def prepared_B_def start_loading_B_def
  reply_B_def setInterval_B_def setTimeout_B_def generateResponse_B_def dialog_B_def
  walk_B.simps resolve_B_def lru_has_def lru_set_def read_B_def lru_get_def next_reference_def
  fail_B_def clearInterval_B_def clearTimeout_B_def edit_B_def delete_B_def set_add_def
  fetch_existing_B_def turn_for_def system_turn_def

text \<open>
  Two user messages and a bot message arrive while the first is handled; after two
  settlings both user messages have been handled and answered, the first before the
  second.
\<close>

theorem queue_keeps_arrival_order_witness:
  "idle_B idle_worker
   \<and> queued_by example_events = [example_message, unseen_message]
   \<and> map_option (\<lambda>w. (started_B w, messageQueue_B w, running_B w, calls_B (bot_B w),
                       reply_targets (calls_B (bot_B w))))
       (run_B answering_env example_cfg example_events idle_worker)
     = Some ([example_message, unseen_message], [], [],
         [Reply ''500'' (LOADING_FRAMES ! 0), FetchChannel ''c1'',
          Completion
            [\<lparr> turn_role = User, turn_content = ascii ''hello'', turn_name = Some (ascii ''ann'') \<rparr>,
             \<lparr> turn_role = System, turn_content = ascii ''Translate.'', turn_name = None \<rparr>],
          Edit ''9'' (ascii ''hi''),
          Reply ''501'' (LOADING_FRAMES ! 0), FetchChannel ''c1'',
          Completion
            [\<lparr> turn_role = User, turn_content = ascii ''bonjour'', turn_name = Some (ascii ''ann'') \<rparr>,
             \<lparr> turn_role = System, turn_content = ascii ''Translate.'', turn_name = None \<rparr>],
          Edit ''90000'' (ascii ''hi'')],
         [''500'', ''501''])"
proof -
  let ?calls = "[Reply ''500'' (LOADING_FRAMES ! 0), FetchChannel ''c1'',
          Completion
            [\<lparr> turn_role = User, turn_content = ascii ''hello'', turn_name = Some (ascii ''ann'') \<rparr>,
             \<lparr> turn_role = System, turn_content = ascii ''Translate.'', turn_name = None \<rparr>],
          Edit ''9'' (ascii ''hi''),
          Reply ''501'' (LOADING_FRAMES ! 0), FetchChannel ''c1'',
          Completion
            [\<lparr> turn_role = User, turn_content = ascii ''bonjour'', turn_name = Some (ascii ''ann'') \<rparr>,
             \<lparr> turn_role = System, turn_content = ascii ''Translate.'', turn_name = None \<rparr>],
          Edit ''90000'' (ascii ''hi'')]"
  have i: "idle_B idle_worker" by (simp add: idle_B_def idle_worker_def)
  have q: "queued_by example_events = [example_message, unseen_message]"
    by (simp add: example_events_def example_message_def unseen_message_def example_parent_def)
  have "\<exists>w. run_B answering_env example_cfg example_events idle_worker = Some w
      \<and> running_B w = [] \<and> messageQueue_B w = [] \<and> calls_B (bot_B w) = ?calls"
    by (simp add: example_events_def idle_worker_def enqueueMessage_B_def processQueue_B_def
        next_B_def settle_B_def handler_B_defs finish_B_def MAX_LOADING_DURATION_MS_def
        example_message_def unseen_message_def example_parent_def initial_B_def
        answering_env_def example_env_def example_cfg_def)
  then obtain w where r: "run_B answering_env example_cfg example_events idle_worker = Some w"
    and e: "running_B w = []" and m: "messageQueue_B w = []"
    and c: "calls_B (bot_B w) = ?calls" by blast
  from queue_keeps_arrival_order [OF i r] q e m
  have "started_B w = [example_message, unseen_message]" by simp
  with i q r e m c show ?thesis by simp
qed

section \<open>A failing language-model call: proofs\<close>

lemma resolve_B_frame:
  "resolve_B e i st = (r, st1) \<Longrightarrow>
     originalToReplyMap_B st1 = originalToReplyMap_B st \<and> intervals_B st1 = intervals_B st
     \<and> timeouts_B st1 = timeouts_B st"
  by (auto simp: resolve_B_def read_B_def split: if_splits option.splits prod.splits)

lemma walk_B_frame:
  assumes "walk_B e st dialog i = Some y"
  shows "originalToReplyMap_B (snd y) = originalToReplyMap_B st
       \<and> intervals_B (snd y) = intervals_B st \<and> timeouts_B (snd y) = timeouts_B st"
proof (rule walk_B.raw_induct [where P = "\<lambda>e st dialog i y.
    originalToReplyMap_B (snd y) = originalToReplyMap_B st
    \<and> intervals_B (snd y) = intervals_B st \<and> timeouts_B (snd y) = timeouts_B st", OF _ assms])
  fix walk e st dialog i y
  assume IH: "\<And>e st dialog i y. walk e st dialog i = Some y \<Longrightarrow>
      originalToReplyMap_B (snd y) = originalToReplyMap_B st
      \<and> intervals_B (snd y) = intervals_B st \<and> timeouts_B (snd y) = timeouts_B st"
    and body: "(case resolve_B e i st of
        (DeadEnd, st1) \<Rightarrow> Some (Returns dialog, st1)
      | (Found cached, st1) \<Rightarrow>
          (case next_reference cached of
             None \<Rightarrow>
               Some (Returns (dialog @ [turn_for (thisBotMessages_B st1) i cached]), st1)
           | Some r \<Rightarrow>
               walk e st1 (dialog @ [turn_for (thisBotMessages_B st1) i cached]) r)
      | (Vanished, st1) \<Rightarrow> Some (Throws, st1)) = Some y"
  obtain r st1 where res: "resolve_B e i st = (r, st1)" by (cases "resolve_B e i st")
  note f = resolve_B_frame [OF res]
  show "originalToReplyMap_B (snd y) = originalToReplyMap_B st
      \<and> intervals_B (snd y) = intervals_B st \<and> timeouts_B (snd y) = timeouts_B st"
  proof (cases r)
    case DeadEnd
    with body res f show ?thesis by auto
  next
    case Vanished
    with body res f show ?thesis by auto
  next
    case (Found cached)
    show ?thesis
    proof (cases "next_reference cached")
      case None
      with body res Found f show ?thesis by auto
    next
      case (Some nxt)
      with body res Found
      have "walk e st1 (dialog @ [turn_for (thisBotMessages_B st1) i cached]) nxt = Some y" by simp
      from IH [OF this] f show ?thesis by simp
    qed
  qed
qed

lemma dialog_B_frame:
  assumes "dialog_B e cfg i st = Some (r, st')"
  shows "originalToReplyMap_B st' = originalToReplyMap_B st
       \<and> intervals_B st' = intervals_B st \<and> timeouts_B st' = timeouts_B st"
proof -
  from assms obtain d where "walk_B e st [] i = Some (d, st')"
    by (auto simp: dialog_B_def split: option.splits outcome.splits)
  from walk_B_frame [OF this] show ?thesis by simp
qed

lemma start_loading_B_frame:
  assumes "start_loading_B e m st = (Some (l, i, t), st3)"
  shows "originalToReplyMap_B st3 = originalToReplyMap_B st"
  using assms
  by (auto simp: start_loading_B_def reply_B_def setInterval_B_def setTimeout_B_def
      split: outcome.splits)

lemma fail_B_shows_error:
  assumes "\<And>n. edit_result e n"
    and "hasReply \<longleftrightarrow> originalToReplyMap_B st (message_id m) \<noteq> None"
  shows "\<exists>st'. fail_B e m hasReply (Some l) (Some i) (Some t) st = (Resolved, st')
       \<and> calls_B st' = calls_B st @
           (case originalToReplyMap_B st (message_id m) of
              None \<Rightarrow> [Edit l ERROR_MESSAGE]
            | Some old \<Rightarrow>
                (case messages_fetch e old of
                   None \<Rightarrow> [FetchMessage old, Edit l ERROR_MESSAGE]
                 | Some existing \<Rightarrow>
                     [FetchMessage old, Edit (message_id existing) ERROR_MESSAGE, Delete l]))
       \<and> i \<notin> set (intervals_B st')"
proof (cases "originalToReplyMap_B st (message_id m)")
  case None
  with assms show ?thesis
    by (simp add: fail_B_def edit_B_def clearInterval_B_def clearTimeout_B_def)
next
  case (Some old)
  show ?thesis
  proof (cases "messages_fetch e old")
    case None
    with Some assms show ?thesis
      by (simp add: fail_B_def edit_B_def clearInterval_B_def clearTimeout_B_def
          fetch_existing_B_def)
  next
    case (Some existing)
    with \<open>originalToReplyMap_B st (message_id m) = Some old\<close> assms show ?thesis
      by (simp add: fail_B_def edit_B_def clearInterval_B_def clearTimeout_B_def
          fetch_existing_B_def delete_B_def)
  qed
qed

text \<open>
  The failure path when the gateway accepts edits. A message passes the checks of lines
  255--266, the loading
  message \<open>l\<close> is sent, the dialog is built and the language-model call on it fails;
  the gateway accepts edits. Then \<open>handleMessage\<close> resolves: the failure is caught on
  line 310 and \<open>ERROR_MESSAGE\<close> is written into the loading message, unless the
  message is an edit of one answered before whose earlier reply the gateway still returns:
  then \<open>ERROR_MESSAGE\<close> is written into that reply and the loading message is
  deleted. The animation interval is cleared, and the queue loop takes the next queued
  message.
\<close>

lemma handleMessage_B_generation_failure:
  assumes "\<not> author_bot m"
    and "message_id m \<notin> set (processedMessages_B st)
         \<or> originalToReplyMap_B st (message_id m) \<noteq> None"
    and "length (content m) < 3000"
    and "isTranslatableText e (content m)"
    and "start_loading_B e m (prepared_B m st) = (Some (l, i, t), st3)"
    and "channels_fetch e (channelId m)"
    and "dialog_B e cfg (message_id m) (st3\<lparr> calls_B := calls_B st3 @ [FetchChannel (channelId m)] \<rparr>)
           = Some (Returns messages, st4)"
    and "completion_result e messages = Throws"
    and "\<And>n. edit_result e n"
  shows "\<exists>st'. handleMessage_B e cfg m st = Some (Resolved, st')
       \<and> calls_B st' = calls_B st4 @ Completion messages #
           (case originalToReplyMap_B st (message_id m) of
              None \<Rightarrow> [Edit l ERROR_MESSAGE]
            | Some old \<Rightarrow>
                (case messages_fetch e old of
                   None \<Rightarrow> [FetchMessage old, Edit l ERROR_MESSAGE]
                 | Some existing \<Rightarrow>
                     [FetchMessage old, Edit (message_id existing) ERROR_MESSAGE, Delete l]))
       \<and> i \<notin> set (intervals_B st')
       \<and> settle_B e cfg \<lparr> bot_B = st, messageQueue_B = nextMessage # rest,
             isProcessingQueue_B = True, running_B = [m], started_B = s \<rparr>
           = Some \<lparr> bot_B = st', messageQueue_B = rest, isProcessingQueue_B = True,
               running_B = [nextMessage], started_B = s @ [nextMessage] \<rparr>"
proof -
  let ?hasReply = "originalToReplyMap_B st (message_id m) \<noteq> None"
  let ?st5 = "st4\<lparr> calls_B := calls_B st4 @ [Completion messages] \<rparr>"
  have map5: "originalToReplyMap_B ?st5 = originalToReplyMap_B st"
    using dialog_B_frame [OF assms(7)] start_loading_B_frame [OF assms(5)]
    by (simp add: prepared_B_def)
  have gen: "generateResponse_B e cfg (message_id m) (channelId m) st3 = Some (Throws, ?st5)"
    using assms(6,7,8) by (simp add: generateResponse_B_def)
  have "?hasReply \<longleftrightarrow> originalToReplyMap_B ?st5 (message_id m) \<noteq> None"
    by (simp only: map5)
  from fail_B_shows_error [OF assms(9) this, of l i t]
  obtain st' where f: "fail_B e m ?hasReply (Some l) (Some i) (Some t) ?st5 = (Resolved, st')"
    and c: "calls_B st' = calls_B ?st5 @
           (case originalToReplyMap_B ?st5 (message_id m) of
              None \<Rightarrow> [Edit l ERROR_MESSAGE]
            | Some old \<Rightarrow>
                (case messages_fetch e old of
                   None \<Rightarrow> [FetchMessage old, Edit l ERROR_MESSAGE]
                 | Some existing \<Rightarrow>
                     [FetchMessage old, Edit (message_id existing) ERROR_MESSAGE, Delete l]))"
    and n: "i \<notin> set (intervals_B st')"
    by blast
  have t: "try_B e cfg m ?hasReply (prepared_B m st) = Some (Resolved, st')"
    using assms(5) gen f by (simp add: try_B_def)
  have h: "handleMessage_B e cfg m st = Some (Resolved, st')"
    using assms(1-4) t by (auto simp: handleMessage_B_def MAX_MESSAGE_LENGTH_def)
  have q: "settle_B e cfg \<lparr> bot_B = st, messageQueue_B = nextMessage # rest,
             isProcessingQueue_B = True, running_B = [m], started_B = s \<rparr>
           = Some \<lparr> bot_B = st', messageQueue_B = rest, isProcessingQueue_B = True,
               running_B = [nextMessage], started_B = s @ [nextMessage] \<rparr>"
    using h by (simp add: settle_B_def next_B_def)
  from h c n q show ?thesis by (simp add: map5)
qed

text \<open>
  Lines 314--321 at an edited message: the error message is written into the earlier
  reply 77, and the loading message 9 is deleted, not edited.
\<close>

lemma error_goes_to_earlier_reply:
  "map_option (\<lambda>r. (fst r, calls_B (snd r)))
       (handleMessage_B answered_gateway example_cfg example_message answered_state)
     = Some (Resolved,
         [Reply ''500'' (LOADING_FRAMES ! 0), FetchChannel ''c1'',
          Completion
            [\<lparr> turn_role = User, turn_content = ascii ''hello'', turn_name = Some (ascii ''ann'') \<rparr>,
             \<lparr> turn_role = System, turn_content = ascii ''Translate.'', turn_name = None \<rparr>],
          FetchMessage ''77'', Edit ''77'' ERROR_MESSAGE, Delete ''9''])"
  by (simp add: handler_B_defs example_message_def answered_state_def initial_B_def
      answered_gateway_def example_env_def example_cfg_def earlier_reply_def example_parent_def)

text \<open>
  A first message whose language-model call fails: the loading message 9 is edited to
  the error message.
\<close>

lemma handleMessage_B_generation_failure_witness:
  "completion_result example_env
       [\<lparr> turn_role = User, turn_content = ascii ''hello'', turn_name = Some (ascii ''ann'') \<rparr>,
        \<lparr> turn_role = System, turn_content = ascii ''Translate.'', turn_name = None \<rparr>] = Throws
   \<and> map_option (\<lambda>r. (fst r, calls_B (snd r), 0 \<in> set (intervals_B (snd r))))
       (handleMessage_B example_env example_cfg example_message initial_B)
     = Some (Resolved,
         [Reply ''500'' (LOADING_FRAMES ! 0), FetchChannel ''c1'',
          Completion
            [\<lparr> turn_role = User, turn_content = ascii ''hello'', turn_name = Some (ascii ''ann'') \<rparr>,
             \<lparr> turn_role = System, turn_content = ascii ''Translate.'', turn_name = None \<rparr>],
          Edit ''9'' ERROR_MESSAGE], False)"
proof -
  let ?msgs = "[\<lparr> turn_role = User, turn_content = ascii ''hello'', turn_name = Some (ascii ''ann'') \<rparr>,
        \<lparr> turn_role = System, turn_content = ascii ''Translate.'', turn_name = None \<rparr>]"
  let ?st3 = "(prepared_B example_message initial_B)
      \<lparr> calls_B := [Reply ''500'' (LOADING_FRAMES ! 0)], intervals_B := [0],
        timeouts_B := [(1, 10000, 0)], handles_B := 2 \<rparr>"
  have a: "start_loading_B example_env example_message (prepared_B example_message initial_B)
             = (Some (''9'', 0, 1), ?st3)"
    by (simp add: start_loading_B_def reply_B_def setInterval_B_def setTimeout_B_def
        MAX_LOADING_DURATION_MS_def prepared_B_def initial_B_def example_env_def
        example_message_def)
  have b: "dialog_B example_env example_cfg (message_id example_message)
             (?st3\<lparr> calls_B := calls_B ?st3 @ [FetchChannel (channelId example_message)] \<rparr>)
           = Some (Returns ?msgs,
                   ?st3\<lparr> calls_B := [Reply ''500'' (LOADING_FRAMES ! 0), FetchChannel ''c1''] \<rparr>)"
    by (simp add: handler_B_defs example_message_def initial_B_def example_env_def example_cfg_def)
  have c: "completion_result example_env ?msgs = Throws" by (simp add: example_env_def)
  from handleMessage_B_generation_failure [of example_message initial_B example_env
      "''9''" 0 1 ?st3 example_cfg ?msgs _ unseen_message "[]" "[]", OF _ _ _ _ a _ b c]
  obtain st' where "handleMessage_B example_env example_cfg example_message initial_B
        = Some (Resolved, st')"
    "calls_B st' = [Reply ''500'' (LOADING_FRAMES ! 0), FetchChannel ''c1'', Completion ?msgs,
        Edit ''9'' ERROR_MESSAGE]"
    "0 \<notin> set (intervals_B st')"
    by (auto simp: example_message_def initial_B_def example_env_def)
  then show ?thesis using c by simp
qed

text \<open>
  When \<open>handleMessage\<close> is rejected, \<open>processQueue\<close> is rejected at line 241 and
  never reaches line 243: \<open>isProcessingQueue\<close> stays set with no handler awaited.
\<close>

lemma settle_B_rejected:
  assumes "running_B w = [m]" and "handleMessage_B e cfg m (bot_B w) = Some (Rejected, st')"
  shows "settle_B e cfg w = Some (w\<lparr> bot_B := st', running_B := [] \<rparr>)"
  using assms by (simp add: settle_B_def)

text \<open>
  From then on no event starts a handler: \<open>enqueueMessage\<close> only pushes, since
  \<open>isProcessingQueue\<close> is set, and the queue only grows.
\<close>

lemma stalled_step:
  assumes "isProcessingQueue_B w" and "running_B w = []" and "step_B e cfg ev w = Some w1"
  shows "isProcessingQueue_B w1 \<and> running_B w1 = [] \<and> started_B w1 = started_B w
       \<and> bot_B w1 = bot_B w \<and> messageQueue_B w1 = messageQueue_B w @ queued_by [ev]"
proof (cases ev)
  case (Created m)
  with assms show ?thesis by (auto simp: enqueueMessage_B_def)
next
  case (Updated m)
  with assms show ?thesis by (auto simp: enqueueMessage_B_def split: if_splits)
next
  case Settled
  with assms show ?thesis by (auto simp: settle_B_def)
qed

lemma stalled_run:
  assumes "isProcessingQueue_B w" and "running_B w = []" and "run_B e cfg evs w = Some w1"
  shows "isProcessingQueue_B w1 \<and> running_B w1 = [] \<and> started_B w1 = started_B w
       \<and> bot_B w1 = bot_B w \<and> messageQueue_B w1 = messageQueue_B w @ queued_by evs"
  using assms
proof (induction evs arbitrary: w)
  case Nil
  then show ?case by simp
next
  case (Cons ev evs)
  from Cons.prems(3) obtain w' where s: "step_B e cfg ev w = Some w'"
    and r: "run_B e cfg evs w' = Some w1"
    by (auto split: option.splits)
  note a = stalled_step [OF Cons.prems(1,2) s]
  from a have p: "isProcessingQueue_B w'" and q: "running_B w' = []" by simp_all
  from Cons.IH [OF p q r] a show ?case
    by (simp add: queued_by_Cons [of ev evs])
qed

text \<open>
  Claim C5 at a first message whose language-model call fails while the gateway rejects
  the edit of the loading message (a loading message deleted in the meantime, say). The
  failure of the call is caught on line 310, but \<open>loadingMessage.edit(ERROR_MESSAGE)\<close>
  on line 325 stands in the \<open>catch\<close> with no handler of its own, so its rejection
  rejects \<open>handleMessage\<close>. In the run \<open>later_events\<close> the worker then never takes
  another message: message 501, which arrives afterwards, stays in the queue with
  \<open>isProcessingQueue\<close> set and no handler awaited, and gets no reply. With a gateway
  that accepts the edit the same run handles both messages.
\<close>

theorem rejected_error_edit_stalls_queue:
  "map_option (\<lambda>r. (fst r, calls_B (snd r)))
       (handleMessage_B rejecting_gateway example_cfg example_message initial_B)
     = Some (Rejected,
         [Reply ''500'' (LOADING_FRAMES ! 0), FetchChannel ''c1'',
          Completion
            [\<lparr> turn_role = User, turn_content = ascii ''hello'', turn_name = Some (ascii ''ann'') \<rparr>,
             \<lparr> turn_role = System, turn_content = ascii ''Translate.'', turn_name = None \<rparr>],
          Edit ''9'' ERROR_MESSAGE])
   \<and> map_option (\<lambda>w. (started_B w, running_B w, messageQueue_B w, isProcessingQueue_B w,
                       reply_targets (calls_B (bot_B w))))
       (run_B rejecting_gateway example_cfg later_events idle_worker)
     = Some ([example_message], [], [unseen_message], True, [''500''])
   \<and> map_option (\<lambda>w. (started_B w, running_B w, messageQueue_B w, isProcessingQueue_B w,
                       reply_targets (calls_B (bot_B w))))
       (run_B example_env example_cfg later_events idle_worker)
     = Some ([example_message, unseen_message], [], [], False, [''500'', ''501''])"
  by (simp add: later_events_def idle_worker_def enqueueMessage_B_def processQueue_B_def
      next_B_def settle_B_def handler_B_defs MAX_LOADING_DURATION_MS_def
      example_message_def unseen_message_def initial_B_def rejecting_gateway_def
      example_env_def example_cfg_def)

section \<open>The timers of the loading message: proofs\<close>

text \<open>
  Every path through \<open>handleMessage\<close> of lines 254--330 that starts the interval and
  the timeout of lines 278--284 also clears both (lines 287--288 or 311--312): the running
  intervals and the pending timeouts are the same before and after.
\<close>

lemma fetch_existing_B_timers:
  "fetch_existing_B e m st = (x, st1) \<Longrightarrow>
     intervals_B st1 = intervals_B st \<and> timeouts_B st1 = timeouts_B st"
  by (auto simp: fetch_existing_B_def split: option.splits)

lemma fail_B_timers:
  assumes "fail_B e m hasReply lm li lt st = (c, st')"
  shows "intervals_B st' = intervals_B (clearInterval_B li st)
       \<and> timeouts_B st' = timeouts_B (clearTimeout_B lt st)"
proof -
  let ?st0 = "clearTimeout_B lt (clearInterval_B li st)"
  have z: "intervals_B ?st0 = intervals_B (clearInterval_B li st)"
    "timeouts_B ?st0 = timeouts_B (clearTimeout_B lt st)"
    by (simp_all add: clearTimeout_B_def clearInterval_B_def split: option.splits)
  obtain x st1 where f: "(if hasReply then fetch_existing_B e m ?st0 else (None, ?st0)) = (x, st1)"
    by (cases "if hasReply then fetch_existing_B e m ?st0 else (None, ?st0)")
  then have f1: "intervals_B st1 = intervals_B ?st0 \<and> timeouts_B st1 = timeouts_B ?st0"
    by (auto split: if_splits dest: fetch_existing_B_timers)
  from assms f have "intervals_B st' = intervals_B st1 \<and> timeouts_B st' = timeouts_B st1"
    by (auto simp: fail_B_def edit_B_def reply_B_def delete_B_def
        split: option.splits bool.splits outcome.splits if_splits)
  with f1 z show ?thesis by simp
qed

lemma finish_B_timers:
  assumes "finish_B e cfg m hasReply l i t response st = (c, st')"
    and "i \<notin> set (intervals_B st)" and "t \<notin> fst ` set (timeouts_B st)"
  shows "intervals_B st' = intervals_B st \<and> timeouts_B st' = timeouts_B st"
proof -
  have clr: "intervals_B (clearInterval_B (Some i) s) = intervals_B s
      \<and> timeouts_B (clearTimeout_B (Some t) s) = timeouts_B s"
    if "intervals_B s = intervals_B st" "timeouts_B s = timeouts_B st" for s
  proof -
    have "removeAll i (intervals_B st) = intervals_B st" using assms(2) by simp
    moreover have "filter (\<lambda>p. fst p \<noteq> t) (timeouts_B st) = timeouts_B st"
      using assms(3) by (auto simp: filter_id_conv)
    ultimately show ?thesis using that by (simp add: clearInterval_B_def clearTimeout_B_def)
  qed
  show ?thesis
  proof (cases "response = None \<or> response = Some [] \<or> not_translatable cfg (the response)")
    case True
    with assms(1) show ?thesis
      by (auto simp: finish_B_def delete_B_def split: option.splits if_splits)
  next
    case False
    then obtain r where r: "response = Some r" "r \<noteq> []" "\<not> not_translatable cfg r"
      by (cases response) auto
    obtain x st1 where f: "(if hasReply then fetch_existing_B e m st else (None, st)) = (x, st1)"
      by (cases "if hasReply then fetch_existing_B e m st else (None, st)")
    then have f1: "intervals_B st1 = intervals_B st" "timeouts_B st1 = timeouts_B st"
      by (auto split: if_splits dest: fetch_existing_B_timers)
    let ?target = "case x of None \<Rightarrow> l | Some existing \<Rightarrow> existing"
    let ?st2 = "st1\<lparr> calls_B := calls_B st1 @ [Edit ?target r] \<rparr>"
    have f2: "intervals_B ?st2 = intervals_B st" "timeouts_B ?st2 = timeouts_B st"
      using f1 by simp_all
    show ?thesis
    proof (cases "edit_result e (length (calls_B st1))")
      case True
      with assms(1) r f f1 show ?thesis
        by (auto simp: finish_B_def edit_B_def delete_B_def split: option.splits)
    next
      case False
      with assms(1) r f have "fail_B e m hasReply (Some l) (Some i) (Some t) ?st2 = (c, st')"
        by (auto simp: finish_B_def edit_B_def split: option.splits)
      from fail_B_timers [OF this] clr [OF f2] f2 show ?thesis by simp
    qed
  qed
qed

lemma generateResponse_B_timers:
  assumes "generateResponse_B e cfg i ch st = Some (r, st')"
  shows "intervals_B st' = intervals_B st \<and> timeouts_B st' = timeouts_B st"
proof (cases "channels_fetch e ch")
  case False
  with assms show ?thesis by (auto simp: generateResponse_B_def)
next
  case True
  with assms obtain d st1 where
    d: "dialog_B e cfg i (st\<lparr> calls_B := calls_B st @ [FetchChannel ch] \<rparr>) = Some (d, st1)"
    and s: "intervals_B st' = intervals_B st1 \<and> timeouts_B st' = timeouts_B st1"
    by (auto simp: generateResponse_B_def split: option.splits outcome.splits)
  from dialog_B_frame [OF d] s show ?thesis by simp
qed

lemma try_B_timers:
  assumes "try_B e cfg m hasReply st = Some (c, st')" and "fresh_handles_B st"
  shows "intervals_B st' = intervals_B st \<and> timeouts_B st' = timeouts_B st"
proof -
  obtain x st3 where sl: "start_loading_B e m st = (x, st3)" by (cases "start_loading_B e m st")
  show ?thesis
  proof (cases x)
    case None
    with sl have u: "intervals_B st3 = intervals_B st" "timeouts_B st3 = timeouts_B st"
      by (auto simp: start_loading_B_def reply_B_def setInterval_B_def setTimeout_B_def
          split: outcome.splits)
    from assms(1) sl None have "fail_B e m hasReply None None None st3 = (c, st')"
      by (simp add: try_B_def)
    from fail_B_timers [OF this] u show ?thesis
      by (simp add: clearInterval_B_def clearTimeout_B_def)
  next
    case (Some lit)
    obtain l i t where lit: "lit = (l, i, t)" by (cases lit)
    from sl Some lit have
      i: "i = handles_B st" and t: "t = Suc (handles_B st)"
      and u: "intervals_B st3 = intervals_B st @ [i]"
        "timeouts_B st3 = timeouts_B st @ [(t, MAX_LOADING_DURATION_MS, i)]"
      by (auto simp: start_loading_B_def reply_B_def setInterval_B_def setTimeout_B_def
          split: outcome.splits)
    have fi: "i \<notin> set (intervals_B st)" and ft: "t \<notin> fst ` set (timeouts_B st)"
      using assms(2) i t by (auto simp: fresh_handles_B_def)
    from assms(1) sl Some lit obtain r st4 where
      g: "generateResponse_B e cfg (message_id m) (channelId m) st3 = Some (r, st4)"
      by (auto simp: try_B_def split: option.splits)
    note u4 = generateResponse_B_timers [OF g]
    have cl: "intervals_B (clearInterval_B (Some i) st4) = intervals_B st"
      "timeouts_B (clearTimeout_B (Some t) st4) = timeouts_B st"
      using u4 u fi ft by (auto simp: clearInterval_B_def clearTimeout_B_def filter_id_conv)
    show ?thesis
    proof (cases r)
      case Throws
      with assms(1) sl Some lit g
      have "fail_B e m hasReply (Some l) (Some i) (Some t) st4 = (c, st')"
        by (simp add: try_B_def)
      from fail_B_timers [OF this] cl show ?thesis by simp
    next
      case (Returns response)
      let ?st5 = "clearTimeout_B (Some t) (clearInterval_B (Some i) st4)"
      have c5: "intervals_B ?st5 = intervals_B st" "timeouts_B ?st5 = timeouts_B st"
        using cl by (simp_all add: clearInterval_B_def clearTimeout_B_def)
      from assms(1) sl Some lit g Returns
      have "finish_B e cfg m hasReply l i t response ?st5 = (c, st')"
        by (simp add: try_B_def)
      from finish_B_timers [OF this] c5 fi ft show ?thesis by simp
    qed
  qed
qed

lemma handleMessage_B_clears_timers:
  assumes "handleMessage_B e cfg m st = Some (c, st')" and "fresh_handles_B st"
  shows "intervals_B st' = intervals_B st \<and> timeouts_B st' = timeouts_B st"
proof (cases "author_bot m
    \<or> (message_id m \<in> set (processedMessages_B st) \<and> originalToReplyMap_B st (message_id m) = None)
    \<or> MAX_MESSAGE_LENGTH \<le> length (content m) \<or> \<not> isTranslatableText e (content m)")
  case True
  with assms(1) show ?thesis
    by (auto simp: handleMessage_B_def reply_B_def split: if_splits outcome.splits)
next
  case False
  with assms(1) have "try_B e cfg m (originalToReplyMap_B st (message_id m) \<noteq> None)
      (prepared_B m st) = Some (c, st')"
    by (auto simp: handleMessage_B_def)
  moreover have "fresh_handles_B (prepared_B m st)"
    using assms(2) by (simp add: fresh_handles_B_def prepared_B_def)
  ultimately have "intervals_B st' = intervals_B (prepared_B m st)
      \<and> timeouts_B st' = timeouts_B (prepared_B m st)"
    by (rule try_B_timers)
  then show ?thesis by (simp add: prepared_B_def)
qed

text \<open>
  While the answer is awaited in the handler of lines 254--330, the animation started on
  line 278 runs for as long as less than \<open>MAX_LOADING_DURATION_MS\<close> have passed, and
  is stopped by the timeout of line 284 from then on.
\<close>

lemma animation_B_stops_itself:
  assumes "start_loading_B e m st = (Some (l, i, t), st3)" and "fresh_handles_B st"
  shows "i \<in> set (intervals_B (elapse_B d st3)) \<longleftrightarrow> d < MAX_LOADING_DURATION_MS"
proof -
  from assms(1) have i: "i = handles_B st"
    and u: "intervals_B st3 = intervals_B st @ [i]"
      "timeouts_B st3 = timeouts_B st @ [(Suc (handles_B st), MAX_LOADING_DURATION_MS, i)]"
    by (auto simp: start_loading_B_def reply_B_def setInterval_B_def setTimeout_B_def
        split: outcome.splits)
  have "\<forall>p \<in> set (timeouts_B st). snd (snd p) \<noteq> i"
    using assms(2) i by (auto simp: fresh_handles_B_def)
  then show ?thesis using u by (auto simp: elapse_B_def)
qed

text \<open>
  The handler of lines 62--149 starts the same animation on line 105 and no timeout for
  it: however long the answer is awaited, the interval keeps running.
\<close>

lemma animation_A_never_stops_itself:
  assumes "start_loading_A e m st = (Some (l, a), st1)"
  shows "a \<in> set (intervals_A (elapse_A d st1))"
  using assms
  by (auto simp: start_loading_A_def reply_A_def setInterval_A_def elapse_A_def
      split: outcome.splits)

text \<open>
  Claim C8 at message 500, accepted by the handler of lines 62--149, whose answer takes
  10 seconds or more. Lines 103--109 send the loading message 9 and start the interval 0,
  and register no timeout; when \<open>MAX_LOADING_DURATION_MS\<close> have passed with the
  answer still awaited, interval 0 is still running, where the claim has the animation
  stop itself. The handler of lines 254--330 does stop it: at the same message it starts
  interval 0 and the timeout 1 of 10000 ms for it (line 284), the interval still runs
  after 9999 ms and is stopped after 10000 ms.
\<close>

theorem animation_A_runs_past_cap:
  "(case start_loading_A example_env example_message initial_A of
      (r, st) \<Rightarrow> (r, intervals_A st, retries_A st,
                  intervals_A (elapse_A MAX_LOADING_DURATION_MS st)))
     = (Some (''9'', 0), [0], [], [0])
   \<and> (case start_loading_B example_env example_message initial_B of
      (r, st) \<Rightarrow> (r, intervals_B st, timeouts_B st, intervals_B (elapse_B 9999 st),
                  intervals_B (elapse_B MAX_LOADING_DURATION_MS st)))
     = (Some (''9'', 0, 1), [0], [(1, 10000, 0)], [0], [])"
proof -
  have a: "start_loading_A example_env example_message initial_A
      = (Some (''9'', 0),
         initial_A\<lparr> calls_A := [Reply ''500'' (LOADING_FRAMES ! 0)], intervals_A := [0],
                    handles_A := 1 \<rparr>)"
    by (simp add: start_loading_A_def reply_A_def setInterval_A_def initial_A_def
        example_env_def example_message_def)
  have b: "start_loading_B example_env example_message initial_B
      = (Some (''9'', 0, 1),
         initial_B\<lparr> calls_B := [Reply ''500'' (LOADING_FRAMES ! 0)], intervals_B := [0],
                    timeouts_B := [(1, 10000, 0)], handles_B := 2 \<rparr>)"
    by (simp add: start_loading_B_def reply_B_def setInterval_B_def setTimeout_B_def
        MAX_LOADING_DURATION_MS_def initial_B_def example_env_def example_message_def)
  show ?thesis
    unfolding a b
    by (auto simp: elapse_A_def elapse_B_def MAX_LOADING_DURATION_MS_def initial_A_def
        initial_B_def)
qed

end
